theory Spec2Isabelle
  imports Main
begin

section \<open>Data model of the single-threaded agent runtime\<close>

text \<open>
  The theory embeds \<^verbatim>\<open>_single_threaded_agent_runtime.py\<close>. Python objects that are
  shared and mutated (futures, cancellation tokens) live in stores of the runtime state
  and are referred to by number. Exceptions are values of \<open>exn\<close>; an operation that
  may raise returns \<open>(exn + 'a) \<times> runtime\<close>: the raised exception or the value,
  and the state it leaves behind. Every effect the properties speak about (a
  \<^verbatim>\<open>put\<close>, a \<^verbatim>\<open>task_done\<close>, a call of an intervention handler, of a factory
  or of an agent's \<^verbatim>\<open>on_message\<close>) is appended to the \<open>trace\<close> of the state.

  Agents, factories and intervention handlers are the user's code; they are taken as
  functions that return or raise and do not suspend. A delivery task created by
  \<^verbatim>\<open>asyncio.create_task\<close> then runs to completion at the dispatcher's next
  \<^verbatim>\<open>asyncio.sleep(0)\<close>, which is where the model runs it.
\<close>

datatype AgentId = AgentId (type: string) (key: string)

type_synonym TopicId = string

datatype exn =
    Exception string
  | LookupError string
  | ValueError string
  | RuntimeError string
  | CancelledError
  | MessageDroppedException
  | InvalidStateError
  | QueueShutDown

text \<open>What an intervention handler hands back: a message, the sentinel, or an exception.\<close>

datatype 'm intervention = Message 'm | DropMessage | Raises exn

record 'm InterventionHandler =
  on_send :: "'m \<Rightarrow> AgentId option \<Rightarrow> AgentId \<Rightarrow> 'm intervention"
  on_publish :: "'m \<Rightarrow> AgentId option \<Rightarrow> 'm intervention"
  on_response :: "'m \<Rightarrow> AgentId \<Rightarrow> AgentId option \<Rightarrow> 'm intervention"

record MessageContext =
  sender :: "AgentId option"
  topic_id :: "TopicId option"
  is_rpc :: bool
  cancellation_token :: nat
  message_id :: string

text \<open>An agent as the runtime sees it: its concrete class and its message handler.\<close>

record 'm Agent =
  agent_class :: string
  on_message :: "'m \<Rightarrow> MessageContext \<Rightarrow> exn + 'm"

text \<open>
  A factory is a callable: \<open>parameters\<close> is the length of its signature, \<open>call\<close>
  its result inside the instantiation context of the given agent id.
\<close>

datatype 'm factory = Factory (parameters: nat) (call: "AgentId \<Rightarrow> exn + 'm Agent")

datatype 'm envelope =
    SendMessageEnvelope 'm "AgentId option" AgentId nat nat
      \<comment> \<open>message, sender, recipient, future, cancellation token\<close>
  | PublishMessageEnvelope 'm nat "AgentId option" TopicId string
      \<comment> \<open>message, cancellation token, sender, topic id, message id\<close>
  | ResponseMessageEnvelope 'm nat AgentId "AgentId option"
      \<comment> \<open>message, future, sender, recipient\<close>

text \<open>The states of an \<^verbatim>\<open>asyncio.Future\<close>.\<close>

datatype 'm future = Pending | Result 'm | Failed exn | Cancelled

record token =
  is_cancelled :: bool
  callbacks :: "nat list"

datatype 'm event =
    Put "'m envelope"
  | TaskDone
  | OnSend nat 'm
  | OnPublish nat 'm
  | OnResponse nat 'm
  | FactoryCall AgentId
  | OnMessage AgentId 'm MessageContext
  | LogError exn
  | TaskException exn

text \<open>
  \<open>RunContext\<close>: the \<open>stopped\<close> event and the dispatcher task, whose state is the
  exception that ended it, if one did.
\<close>

datatype RunContext = RunContext (stopped: bool) (run_task: "exn option")

record 'm runtime =
  message_queue :: "'m envelope list"
  unfinished_tasks :: nat
  is_shutdown :: bool
  agent_factories :: "string \<rightharpoonup> 'm factory"
  instantiated_agents :: "AgentId \<rightharpoonup> 'm Agent"
  intervention_handlers :: "'m InterventionHandler list option"
  subscribed_recipients :: "TopicId \<Rightarrow> AgentId list"
  run_context :: "RunContext option"
  futures :: "nat \<Rightarrow> 'm future"
  next_future :: nat
  tokens :: "nat \<Rightarrow> token"
  next_token :: nat
  trace :: "'m event list"

definition log_event :: "'m event \<Rightarrow> 'm runtime \<Rightarrow> 'm runtime" where
  "log_event e rt = rt\<lparr>trace := trace rt @ [e]\<rparr>"

subsection \<open>Futures\<close>

definition create_future :: "'m runtime \<Rightarrow> nat \<times> 'm runtime" where
  "create_future rt =
     (next_future rt,
      rt\<lparr>futures := (futures rt)(next_future rt := Pending),
         next_future := Suc (next_future rt)\<rparr>)"

definition set_result :: "nat \<Rightarrow> 'm \<Rightarrow> 'm runtime \<Rightarrow> (exn + unit) \<times> 'm runtime" where
  "set_result f v rt =
     (if futures rt f = Pending then (Inr (), rt\<lparr>futures := (futures rt)(f := Result v)\<rparr>)
      else (Inl InvalidStateError, rt))"

definition set_exception :: "nat \<Rightarrow> exn \<Rightarrow> 'm runtime \<Rightarrow> (exn + unit) \<times> 'm runtime" where
  "set_exception f e rt =
     (if futures rt f = Pending then (Inr (), rt\<lparr>futures := (futures rt)(f := Failed e)\<rparr>)
      else (Inl InvalidStateError, rt))"

definition cancel_future :: "nat \<Rightarrow> 'm runtime \<Rightarrow> 'm runtime" where
  "cancel_future f rt =
     (if futures rt f = Pending then rt\<lparr>futures := (futures rt)(f := Cancelled)\<rparr> else rt)"

definition cancelled :: "nat \<Rightarrow> 'm runtime \<Rightarrow> bool" where
  "cancelled f rt = (futures rt f = Cancelled)"

subsection \<open>Cancellation tokens\<close>

text \<open>
  Modelled from the spec: the class \<^verbatim>\<open>CancellationToken\<close> (\<^verbatim>\<open>_cancellation_token.py\<close>)
  is not among the sources. The spec gives it \<^verbatim>\<open>cancel()\<close>, \<^verbatim>\<open>is_cancelled()\<close> and
  \<^verbatim>\<open>link_future(f)\<close>, "which arranges that cancelling the token also cancels f";
  cancellation is idempotent and monotonic. Linking to a token that is cancelled
  already cancels the future at once.
\<close>

definition create_token :: "'m runtime \<Rightarrow> nat \<times> 'm runtime" where
  "create_token rt =
     (next_token rt,
      rt\<lparr>tokens := (tokens rt)(next_token rt := \<lparr>is_cancelled = False, callbacks = []\<rparr>),
         next_token := Suc (next_token rt)\<rparr>)"

definition link_future :: "nat \<Rightarrow> nat \<Rightarrow> 'm runtime \<Rightarrow> 'm runtime" where
  "link_future t f rt =
     (if is_cancelled (tokens rt t) then cancel_future f rt
      else rt\<lparr>tokens := (tokens rt)(t := (tokens rt t)\<lparr>callbacks := callbacks (tokens rt t) @ [f]\<rparr>)\<rparr>)"

definition cancel :: "nat \<Rightarrow> 'm runtime \<Rightarrow> 'm runtime" where
  "cancel t rt =
     (if is_cancelled (tokens rt t) then rt
      else fold cancel_future (callbacks (tokens rt t))
             (rt\<lparr>tokens := (tokens rt)(t := (tokens rt t)\<lparr>is_cancelled := True\<rparr>)\<rparr>))"

subsection \<open>The queue\<close>

text \<open>
  Modelled from the spec: the queue class (\<^verbatim>\<open>_queue.py\<close>, the backport of the
  Python 3.13 \<^verbatim>\<open>asyncio.Queue\<close>) is not among the sources. The spec gives it as a
  "FIFO of Envelope with an integral outstanding-task counter, supporting put, get,
  task_done, join (blocks until all put-items have been marked done), and
  shutdown(immediate) (future get calls fail with a sentinel; immediate also discards
  remaining items)". As in \<^verbatim>\<open>asyncio\<close>, \<^verbatim>\<open>put\<close> on a queue that is shut down raises,
  \<^verbatim>\<open>task_done\<close> with nothing outstanding raises \<^verbatim>\<open>ValueError\<close>, and an item
  discarded by an immediate shutdown no longer counts as outstanding.
\<close>

definition put :: "'m envelope \<Rightarrow> 'm runtime \<Rightarrow> (exn + unit) \<times> 'm runtime" where
  "put env rt =
     (if is_shutdown rt then (Inl QueueShutDown, rt)
      else (Inr (), log_event (Put env)
              (rt\<lparr>message_queue := message_queue rt @ [env],
                  unfinished_tasks := Suc (unfinished_tasks rt)\<rparr>)))"

definition task_done :: "'m runtime \<Rightarrow> (exn + unit) \<times> 'm runtime" where
  "task_done rt =
     (if unfinished_tasks rt = 0 then (Inl (ValueError ''task_done() called too many times''), rt)
      else (Inr (), log_event TaskDone (rt\<lparr>unfinished_tasks := unfinished_tasks rt - 1\<rparr>)))"

definition shutdown_immediate :: "'m runtime \<Rightarrow> 'm runtime" where
  "shutdown_immediate rt =
     rt\<lparr>is_shutdown := True, message_queue := [],
        unfinished_tasks := unfinished_tasks rt - length (message_queue rt)\<rparr>"

text \<open>\<^verbatim>\<open>self._message_queue = Queue()\<close>\<close>

definition fresh_queue :: "'m runtime \<Rightarrow> 'm runtime" where
  "fresh_queue rt = rt\<lparr>message_queue := [], unfinished_tasks := 0, is_shutdown := False\<rparr>"

subsection \<open>Agent factories and the instance cache\<close>

definition invoke_agent_factory ::
  "'m factory \<Rightarrow> AgentId \<Rightarrow> 'm runtime \<Rightarrow> (exn + 'm Agent) \<times> 'm runtime" where
  "invoke_agent_factory agent_factory agent_id rt =
     (if parameters agent_factory = 0 then
        (call agent_factory agent_id, log_event (FactoryCall agent_id) rt)
      else if parameters agent_factory = 2 then
        (call agent_factory agent_id, log_event (FactoryCall agent_id) rt)
      else (Inl (ValueError ''Agent factory must take 0 or 2 arguments.''), rt))"

definition get_agent :: "AgentId \<Rightarrow> 'm runtime \<Rightarrow> (exn + 'm Agent) \<times> 'm runtime" where
  "get_agent agent_id rt =
     (case instantiated_agents rt agent_id of
        Some agent \<Rightarrow> (Inr agent, rt)
      | None \<Rightarrow>
          (case agent_factories rt (type agent_id) of
             None \<Rightarrow> (Inl (LookupError (''Agent with name '' @ type agent_id @ '' not found.'')), rt)
           | Some agent_factory \<Rightarrow>
               (case invoke_agent_factory agent_factory agent_id rt of
                  (Inl e, rt') \<Rightarrow> (Inl e, rt')
                | (Inr agent, rt') \<Rightarrow>
                    (Inr agent,
                     rt'\<lparr>instantiated_agents := (instantiated_agents rt')(agent_id \<mapsto> agent)\<rparr>))))"

text \<open>
  \<^verbatim>\<open>_get_agent\<close> is a coroutine: between the test of the cache and the write to it
  stands \<^verbatim>\<open>await self._invoke_agent_factory(...)\<close>, where a factory that is itself a
  coroutine suspends and other tasks run. \<open>get_agent_begin\<close> is the part up to that
  point: it returns at once from the cache or with an exception, or it has called the
  factory and awaits what the factory will give. \<open>get_agent_resume\<close> is the part after
  it. \<open>get_agent\<close> above is the two run without anything in between.
\<close>

datatype 'm resolving = Returned "exn + 'm Agent" | Awaiting AgentId "exn + 'm Agent"

definition get_agent_begin :: "AgentId \<Rightarrow> 'm runtime \<Rightarrow> 'm resolving \<times> 'm runtime" where
  "get_agent_begin agent_id rt =
     (case instantiated_agents rt agent_id of
        Some agent \<Rightarrow> (Returned (Inr agent), rt)
      | None \<Rightarrow>
          (case agent_factories rt (type agent_id) of
             None \<Rightarrow>
               (Returned (Inl (LookupError (''Agent with name '' @ type agent_id @ '' not found.''))), rt)
           | Some agent_factory \<Rightarrow>
               (if parameters agent_factory = 0 \<or> parameters agent_factory = 2
                then (Awaiting agent_id (call agent_factory agent_id),
                      log_event (FactoryCall agent_id) rt)
                else (Returned (Inl (ValueError ''Agent factory must take 0 or 2 arguments.'')), rt))))"

definition get_agent_resume :: "'m resolving \<Rightarrow> 'm runtime \<Rightarrow> (exn + 'm Agent) \<times> 'm runtime" where
  "get_agent_resume p rt =
     (case p of
        Returned r \<Rightarrow> (r, rt)
      | Awaiting agent_id (Inl e) \<Rightarrow> (Inl e, rt)
      | Awaiting agent_id (Inr agent) \<Rightarrow>
          (Inr agent, rt\<lparr>instantiated_agents := (instantiated_agents rt)(agent_id \<mapsto> agent)\<rparr>))"

text \<open>
  \<^verbatim>\<open>register_factory\<close> stores \<^verbatim>\<open>factory_wrapper\<close>, a callable of no parameters that
  calls the given factory and compares the class of what it made. Its error for a type
  that is registered already formats the \<^verbatim>\<open>AgentType\<close> object, a dataclass whose
  text is \<^verbatim>\<open>AgentType(type='echo')\<close>; \<open>py_repr\<close> is Python's \<^verbatim>\<open>repr\<close> of a string of
  printable characters (the quote it chooses, and the backslashes it adds).
\<close>

definition py_repr :: "string \<Rightarrow> string" where
  "py_repr s =
     (if CHR 0x27 \<in> set s \<and> CHR 0x22 \<notin> set s
      then [CHR 0x22] @ concat (map (\<lambda>c. if c = CHR 0x5C then [c, c] else [c]) s) @ [CHR 0x22]
      else [CHR 0x27] @
           concat (map (\<lambda>c. if c = CHR 0x5C then [c, c]
                              else if c = CHR 0x27 then [CHR 0x5C, c] else [c]) s) @
           [CHR 0x27])"

definition factory_wrapper ::
  "(AgentId \<Rightarrow> exn + 'm Agent) \<Rightarrow> string \<Rightarrow> AgentId \<Rightarrow> exn + 'm Agent" where
  "factory_wrapper agent_factory expected_class agent_id =
     (case agent_factory agent_id of
        Inl e \<Rightarrow> Inl e
      | Inr agent_instance \<Rightarrow>
          (if agent_class agent_instance \<noteq> expected_class
           then Inl (ValueError ''Factory registered using the wrong type.'')
           else Inr agent_instance))"

definition register_factory ::
  "string \<Rightarrow> (AgentId \<Rightarrow> exn + 'm Agent) \<Rightarrow> string \<Rightarrow> 'm runtime \<Rightarrow> (exn + string) \<times> 'm runtime" where
  "register_factory ty agent_factory expected_class rt =
     (if ty \<in> dom (agent_factories rt)
      then (Inl (ValueError (''Agent with type AgentType(type='' @ py_repr ty @
                             '') already exists.'')), rt)
      else (Inr ty,
            rt\<lparr>agent_factories :=
                 (agent_factories rt)(ty \<mapsto> Factory 0 (factory_wrapper agent_factory expected_class))\<rparr>))"

text \<open>
  The deprecated \<^verbatim>\<open>register\<close>, called without subscriptions: it binds the factory as
  it is, whatever its signature.
\<close>

definition register ::
  "string \<Rightarrow> 'm factory \<Rightarrow> 'm runtime \<Rightarrow> (exn + string) \<times> 'm runtime" where
  "register ty agent_factory rt =
     (if ty \<in> dom (agent_factories rt)
      then (Inl (ValueError (''Agent with type '' @ ty @ '' already exists.'')), rt)
      else (Inr ty, rt\<lparr>agent_factories := (agent_factories rt)(ty \<mapsto> agent_factory)\<rparr>))"

subsection \<open>Sequencing operations that may raise\<close>

definition and_then ::
  "(exn + 'a) \<times> 's \<Rightarrow> ('a \<Rightarrow> 's \<Rightarrow> (exn + 'b) \<times> 's) \<Rightarrow> (exn + 'b) \<times> 's" where
  "and_then r f = (case r of (Inl e, s) \<Rightarrow> (Inl e, s) | (Inr v, s) \<Rightarrow> f v s)"

section \<open>Enqueueing: \<^verbatim>\<open>send_message\<close> and \<^verbatim>\<open>publish_message\<close>\<close>

text \<open>
  \<^verbatim>\<open>send_message\<close> ends in \<^verbatim>\<open>return await future\<close>; the model returns the future,
  whose state in a later runtime state is what the caller's \<^verbatim>\<open>await\<close> yields.
\<close>

definition send_message ::
  "'m \<Rightarrow> AgentId \<Rightarrow> AgentId option \<Rightarrow> nat option \<Rightarrow> 'm runtime \<Rightarrow> (exn + nat) \<times> 'm runtime" where
  "send_message message recipient sender_id token rt =
     (let (tok, rt1) = (case token of None \<Rightarrow> create_token rt | Some t \<Rightarrow> (t, rt));
          (future, rt2) = create_future rt1;
          rt3 = (if type recipient \<notin> dom (agent_factories rt2)
                 then snd (set_exception future (Exception ''Recipient not found'') rt2)
                 else rt2)
      in and_then (put (SendMessageEnvelope message sender_id recipient future tok) rt3)
           (\<lambda>_ rt4. (Inr future, link_future tok future rt4)))"

text \<open>\<open>uuid4\<close> is the string \<^verbatim>\<open>str(uuid.uuid4())\<close> would give.\<close>

definition publish_message ::
  "'m \<Rightarrow> TopicId \<Rightarrow> AgentId option \<Rightarrow> nat option \<Rightarrow> string option \<Rightarrow> string \<Rightarrow> 'm runtime
     \<Rightarrow> (exn + unit) \<times> 'm runtime" where
  "publish_message message topic sender_id token msg_id uuid4 rt =
     (let (tok, rt1) = (case token of None \<Rightarrow> create_token rt | Some t \<Rightarrow> (t, rt));
          mid = (case msg_id of None \<Rightarrow> uuid4 | Some i \<Rightarrow> i)
      in put (PublishMessageEnvelope message tok sender_id topic mid) rt1)"

section \<open>Delivery tasks\<close>

text \<open>
  \<^verbatim>\<open>_process_send\<close>. \<open>send_to_agent\<close> is its body from the point where
  \<^verbatim>\<open>await self._get_agent(recipient)\<close> has returned or raised.
\<close>

definition send_to_agent ::
  "'m \<Rightarrow> AgentId option \<Rightarrow> AgentId \<Rightarrow> nat \<Rightarrow> nat \<Rightarrow> (exn + 'm Agent) \<times> 'm runtime
     \<Rightarrow> (exn + unit) \<times> 'm runtime" where
  "send_to_agent message sender_id recipient future tok resolved =
     (case and_then resolved
             (\<lambda>recipient_agent rt1.
                (let message_context =
                       \<lparr>sender = sender_id, topic_id = None, is_rpc = True,
                        cancellation_token = tok, message_id = ''NOT_DEFINED_TODO_FIX''\<rparr>
                 in (on_message recipient_agent message message_context,
                     log_event (OnMessage recipient message message_context) rt1))) of
        (Inl e, rt2) \<Rightarrow>
          (if e = CancelledError then
             and_then (if \<not> cancelled future rt2 then set_exception future e rt2 else (Inr (), rt2))
               (\<lambda>_. task_done)
           else and_then (set_exception future e rt2) (\<lambda>_. task_done))
      | (Inr response, rt2) \<Rightarrow>
          and_then (put (ResponseMessageEnvelope response future recipient sender_id) rt2)
            (\<lambda>_. task_done))"

definition process_send ::
  "'m \<Rightarrow> AgentId option \<Rightarrow> AgentId \<Rightarrow> nat \<Rightarrow> nat \<Rightarrow> 'm runtime \<Rightarrow> (exn + unit) \<times> 'm runtime" where
  "process_send message sender_id recipient future tok rt =
     send_to_agent message sender_id recipient future tok (get_agent recipient rt)"

text \<open>
  The loop of \<^verbatim>\<open>_process_publish\<close> collects one coroutine per recipient; none of them
  runs before \<^verbatim>\<open>asyncio.gather\<close>.
\<close>

fun publish_recipients ::
  "AgentId list \<Rightarrow> AgentId option \<Rightarrow> MessageContext \<Rightarrow> (AgentId \<times> 'm Agent \<times> MessageContext) list
     \<Rightarrow> 'm runtime \<Rightarrow> (exn + (AgentId \<times> 'm Agent \<times> MessageContext) list) \<times> 'm runtime" where
  "publish_recipients [] sender_id message_context responses rt = (Inr responses, rt)"
| "publish_recipients (agent_id # recipients) sender_id message_context responses rt =
     (if sender_id \<noteq> None \<and> Some agent_id = sender_id
      then publish_recipients recipients sender_id message_context responses rt
      else and_then (case sender_id of
                       None \<Rightarrow> (Inr None, rt)
                     | Some s \<Rightarrow> and_then (get_agent s rt) (\<lambda>a rt1. (Inr (Some a), rt1)))
             (\<lambda>sender_agent rt1.
                and_then (get_agent agent_id rt1)
                  (\<lambda>agent rt2.
                     publish_recipients recipients sender_id message_context
                       (responses @ [(agent_id, agent, message_context)]) rt2)))"

text \<open>
  \<^verbatim>\<open>asyncio.gather\<close> starts every coroutine; the first exception is the one the
  awaiting task sees.
\<close>

fun gather ::
  "(AgentId \<times> 'm Agent \<times> MessageContext) list \<Rightarrow> 'm \<Rightarrow> 'm runtime \<Rightarrow> (exn + unit) \<times> 'm runtime" where
  "gather [] message rt = (Inr (), rt)"
| "gather ((agent_id, agent, message_context) # responses) message rt =
     (case gather responses message (log_event (OnMessage agent_id message message_context) rt) of
        (r, rt1) \<Rightarrow>
          (case on_message agent message message_context of
             Inl e \<Rightarrow> (Inl e, rt1)
           | Inr _ \<Rightarrow> (r, rt1)))"

definition process_publish ::
  "'m \<Rightarrow> nat \<Rightarrow> AgentId option \<Rightarrow> TopicId \<Rightarrow> string \<Rightarrow> 'm runtime \<Rightarrow> (exn + unit) \<times> 'm runtime" where
  "process_publish message tok sender_id topic msg_id rt =
     (case and_then
             (publish_recipients (subscribed_recipients rt topic) sender_id
                \<lparr>sender = sender_id, topic_id = Some topic, is_rpc = False,
                 cancellation_token = tok, message_id = msg_id\<rparr> [] rt)
             (\<lambda>responses. gather responses message) of
        (Inl e, rt1) \<Rightarrow>
          (if e = CancelledError then task_done rt1
           else task_done (log_event (LogError e) rt1))
      | (Inr _, rt1) \<Rightarrow> task_done rt1)"

definition process_response :: "'m \<Rightarrow> nat \<Rightarrow> 'm runtime \<Rightarrow> (exn + unit) \<times> 'm runtime" where
  "process_response message future rt =
     and_then (task_done rt)
       (\<lambda>_ rt1. if \<not> cancelled future rt1 then set_result future message rt1 else (Inr (), rt1))"

text \<open>
  A task made by \<^verbatim>\<open>asyncio.create_task\<close>: an exception that leaves it stays in the
  task and does not reach the dispatcher.
\<close>

definition create_task :: "(exn + unit) \<times> 'm runtime \<Rightarrow> 'm runtime" where
  "create_task r = (case r of (Inl e, rt) \<Rightarrow> log_event (TaskException e) rt | (Inr _, rt) \<Rightarrow> rt)"

section \<open>The dispatcher: \<^verbatim>\<open>_process_next\<close>\<close>

text \<open>
  The three intervention loops. \<open>message\<close> is the variable the \<^verbatim>\<open>match\<close> statement
  bound; \<open>envelope_message\<close> is the field \<^verbatim>\<open>message_envelope.message\<close>, which the
  loop assigns. The result is \<open>Inr None\<close> where the source returns from
  \<^verbatim>\<open>_process_next\<close>, and \<open>Inr (Some m)\<close> when the loop ends with \<open>m\<close> in the
  envelope.
\<close>

fun send_interventions ::
  "'m InterventionHandler list \<Rightarrow> nat \<Rightarrow> 'm \<Rightarrow> AgentId option \<Rightarrow> AgentId \<Rightarrow> nat \<Rightarrow> 'm \<Rightarrow> 'm runtime
     \<Rightarrow> (exn + 'm option) \<times> 'm runtime" where
  "send_interventions [] i message sender_id recipient future envelope_message rt =
     (Inr (Some envelope_message), rt)"
| "send_interventions (handler # handlers) i message sender_id recipient future envelope_message rt =
     (case on_send handler message sender_id recipient of
        Raises e \<Rightarrow>
          and_then (set_exception future e (log_event (OnSend i message) rt))
            (\<lambda>_ rt1. (Inr None, rt1))
      | DropMessage \<Rightarrow>
          and_then (set_exception future MessageDroppedException (log_event (OnSend i message) rt))
            (\<lambda>_ rt1. (Inr None, rt1))
      | Message temp_message \<Rightarrow>
          send_interventions handlers (Suc i) message sender_id recipient future temp_message
            (log_event (OnSend i message) rt))"

fun publish_interventions ::
  "'m InterventionHandler list \<Rightarrow> nat \<Rightarrow> 'm \<Rightarrow> AgentId option \<Rightarrow> 'm \<Rightarrow> 'm runtime
     \<Rightarrow> (exn + 'm option) \<times> 'm runtime" where
  "publish_interventions [] i message sender_id envelope_message rt =
     (Inr (Some envelope_message), rt)"
| "publish_interventions (handler # handlers) i message sender_id envelope_message rt =
     (case on_publish handler message sender_id of
        Raises e \<Rightarrow> (Inr None, log_event (LogError e) (log_event (OnPublish i message) rt))
      | DropMessage \<Rightarrow> (Inr None, log_event (OnPublish i message) rt)
      | Message temp_message \<Rightarrow>
          publish_interventions handlers (Suc i) message sender_id temp_message
            (log_event (OnPublish i message) rt))"

fun response_interventions ::
  "'m InterventionHandler list \<Rightarrow> nat \<Rightarrow> 'm \<Rightarrow> AgentId \<Rightarrow> AgentId option \<Rightarrow> nat \<Rightarrow> 'm \<Rightarrow> 'm runtime
     \<Rightarrow> (exn + 'm option) \<times> 'm runtime" where
  "response_interventions [] i message sender_id recipient future envelope_message rt =
     (Inr (Some envelope_message), rt)"
| "response_interventions (handler # handlers) i message sender_id recipient future envelope_message rt =
     (case on_response handler message sender_id recipient of
        Raises e \<Rightarrow>
          and_then (set_exception future e (log_event (OnResponse i message) rt))
            (\<lambda>_ rt1. (Inr None, rt1))
      | DropMessage \<Rightarrow>
          and_then (set_exception future MessageDroppedException (log_event (OnResponse i message) rt))
            (\<lambda>_ rt1. (Inr None, rt1))
      | Message temp_message \<Rightarrow>
          response_interventions handlers (Suc i) message sender_id recipient future temp_message
            (log_event (OnResponse i message) rt))"

text \<open>
  One call of \<^verbatim>\<open>_process_next\<close> on the envelope that \<^verbatim>\<open>get\<close> returned, together
  with the delivery task it creates.
\<close>

fun dispatch :: "'m envelope \<Rightarrow> 'm runtime \<Rightarrow> (exn + unit) \<times> 'm runtime" where
  "dispatch (SendMessageEnvelope message sender_id recipient future tok) rt =
     and_then (case intervention_handlers rt of
                 None \<Rightarrow> (Inr (Some message), rt)
               | Some handlers \<Rightarrow>
                   send_interventions handlers 0 message sender_id recipient future message rt)
       (\<lambda>r rt1. case r of
                   None \<Rightarrow> (Inr (), rt1)
                 | Some m \<Rightarrow> (Inr (), create_task (process_send m sender_id recipient future tok rt1)))"
| "dispatch (PublishMessageEnvelope message tok sender_id topic msg_id) rt =
     and_then (case intervention_handlers rt of
                 None \<Rightarrow> (Inr (Some message), rt)
               | Some handlers \<Rightarrow> publish_interventions handlers 0 message sender_id message rt)
       (\<lambda>r rt1. case r of
                   None \<Rightarrow> (Inr (), rt1)
                 | Some m \<Rightarrow> (Inr (), create_task (process_publish m tok sender_id topic msg_id rt1)))"
| "dispatch (ResponseMessageEnvelope message future sender_id recipient) rt =
     and_then (case intervention_handlers rt of
                 None \<Rightarrow> (Inr (Some message), rt)
               | Some handlers \<Rightarrow>
                   response_interventions handlers 0 message sender_id recipient future message rt)
       (\<lambda>r rt1. case r of
                   None \<Rightarrow> (Inr (), rt1)
                 | Some m \<Rightarrow> (Inr (), create_task (process_response m future rt1)))"

text \<open>
  \<^verbatim>\<open>_process_next\<close>. \<open>None\<close>: the queue is empty and open, so \<^verbatim>\<open>get\<close> does not
  return. On a queue that is shut down and empty \<^verbatim>\<open>get\<close> raises
  \<^verbatim>\<open>QueueShutDown\<close> and the method returns.
\<close>

definition process_next :: "'m runtime \<Rightarrow> ((exn + unit) \<times> 'm runtime) option" where
  "process_next rt =
     (case message_queue rt of
        [] \<Rightarrow> (if is_shutdown rt then Some (Inr (), rt) else None)
      | message_envelope # rest \<Rightarrow> Some (dispatch message_envelope (rt\<lparr>message_queue := rest\<rparr>)))"

section \<open>Lifecycle\<close>

text \<open>
  The weight of an envelope bounds the dispatcher steps it can still cause: a Send is
  followed by at most one Response, a Publish and a Response by nothing.
\<close>

fun weight :: "'m envelope \<Rightarrow> nat" where
  "weight (SendMessageEnvelope m s r f t) = 2"
| "weight (PublishMessageEnvelope m t s tp i) = 1"
| "weight (ResponseMessageEnvelope m f s r) = 1"

lemma snd_and_then:
  "(\<And>v s. P (snd (f v s)) = P s) \<Longrightarrow> P (snd (and_then r f)) = P (snd r)"
  by (cases r; cases "fst r") (auto simp: and_then_def)

lemmas mq_and_then [simp] = snd_and_then [where P = message_queue]

lemma mq_log_event [simp]: "message_queue (log_event e rt) = message_queue rt"
  by (simp add: log_event_def)

lemma mq_set_exception [simp]: "message_queue (snd (set_exception f e rt)) = message_queue rt"
  by (simp add: set_exception_def)

lemma mq_set_result [simp]: "message_queue (snd (set_result f v rt)) = message_queue rt"
  by (simp add: set_result_def)

lemma mq_task_done [simp]: "message_queue (snd (task_done rt)) = message_queue rt"
  by (simp add: task_done_def)

lemma mq_put:
  "message_queue (snd (put env rt)) = (if is_shutdown rt then message_queue rt else message_queue rt @ [env])"
  by (simp add: put_def)

lemma mq_get_agent [simp]: "message_queue (snd (get_agent a rt)) = message_queue rt"
  by (simp add: get_agent_def invoke_agent_factory_def split: option.splits sum.splits prod.splits)

lemma mq_create_task [simp]:
  "message_queue (create_task r) = message_queue (snd r)"
  by (simp add: create_task_def case_prod_beta split: sum.splits)

lemma mq_publish_recipients [simp]:
  "message_queue (snd (publish_recipients rs s c acc rt)) = message_queue rt"
  by (induction rs arbitrary: acc rt) (simp_all split: option.splits)

lemma mq_gather [simp]: "message_queue (snd (gather rs m rt)) = message_queue rt"
  by (induction rs arbitrary: rt) (auto simp: case_prod_beta split: sum.splits)

lemma mq_process_publish [simp]:
  "message_queue (snd (process_publish m t s tp i rt)) = message_queue rt"
  by (simp add: process_publish_def case_prod_beta split: sum.splits)

lemma mq_process_response [simp]:
  "message_queue (snd (process_response m f rt)) = message_queue rt"
  by (simp add: process_response_def)

lemma mq_process_send:
  "message_queue (snd (process_send m s r f t rt)) = message_queue rt \<or>
   (\<exists>v. message_queue (snd (process_send m s r f t rt)) = message_queue rt @ [ResponseMessageEnvelope v f r s])"
  by (simp add: process_send_def send_to_agent_def mq_put case_prod_beta Let_def split: sum.splits)

lemma mq_send_interventions [simp]:
  "message_queue (snd (send_interventions hs i m s r f em rt)) = message_queue rt"
  by (induction hs arbitrary: i em rt) (simp_all split: intervention.splits)

lemma mq_publish_interventions [simp]:
  "message_queue (snd (publish_interventions hs i m s em rt)) = message_queue rt"
  by (induction hs arbitrary: i em rt) (simp_all split: intervention.splits)

lemma mq_response_interventions [simp]:
  "message_queue (snd (response_interventions hs i m s r f em rt)) = message_queue rt"
  by (induction hs arbitrary: i em rt) (simp_all split: intervention.splits)


definition queue_weight :: "'m runtime \<Rightarrow> nat" where
  "queue_weight rt = sum_list (map weight (message_queue rt))"

lemma weight_pos: "0 < weight env"
  by (cases env) simp_all

lemma queue_weight_dispatch:
  "queue_weight (snd (dispatch env rt)) < queue_weight rt + weight env"
proof (cases env)
  case (SendMessageEnvelope m s r f t)
  have "queue_weight (create_task (process_send m' s r f t rt')) \<le> queue_weight rt' + 1" for m' rt'
    using mq_process_send [of m' s r f t rt'] by (auto simp: queue_weight_def)
  note step = this
  define X where "X = (case intervention_handlers rt of
                 None \<Rightarrow> (Inr (Some m), rt)
               | Some handlers \<Rightarrow> send_interventions handlers 0 m s r f m rt)"
  have X: "queue_weight (snd X) = queue_weight rt"
    by (simp add: X_def queue_weight_def split: option.splits)
  show ?thesis
    using X step [of _ "snd X"]
    unfolding SendMessageEnvelope dispatch.simps X_def [symmetric]
    by (cases X; cases "fst X")
       (auto simp: and_then_def le_less_trans less_Suc_eq_le
             split: option.splits)
next
  case (PublishMessageEnvelope m t s tp i)
  then show ?thesis
    by (simp add: queue_weight_def and_then_def case_prod_beta split: sum.splits option.splits)
next
  case (ResponseMessageEnvelope m f s r)
  then show ?thesis
    by (simp add: queue_weight_def and_then_def case_prod_beta split: sum.splits option.splits)
qed


lemma queue_weight_process_next:
  "process_next rt = Some (r, rt') \<Longrightarrow> message_queue rt \<noteq> [] \<Longrightarrow> queue_weight rt' < queue_weight rt"
proof -
  assume a: "process_next rt = Some (r, rt')" and b: "message_queue rt \<noteq> []"
  obtain env rest where q: "message_queue rt = env # rest"
    using b by (cases "message_queue rt") auto
  have "rt' = snd (dispatch env (rt\<lparr>message_queue := rest\<rparr>))"
    using a q by (simp add: process_next_def)
  then show ?thesis
    using queue_weight_dispatch [of env "rt\<lparr>message_queue := rest\<rparr>"] q
    by (simp add: queue_weight_def)
qed

text \<open>\<^verbatim>\<open>start\<close>: the new \<open>RunContext\<close> has its event clear and its task alive.\<close>

definition start :: "'m runtime \<Rightarrow> (exn + unit) \<times> 'm runtime" where
  "start rt =
     (if run_context rt \<noteq> None then (Inl (RuntimeError ''Runtime is already started''), rt)
      else (Inr (), rt\<lparr>run_context := Some (RunContext False None)\<rparr>))"

text \<open>
  The dispatcher task of \<open>RunContext._run\<close>, driven until a condition on the runtime
  holds; this is what a caller waits through in \<^verbatim>\<open>queue.join()\<close> and in the polling
  loop of \<^verbatim>\<open>stop_when\<close>. The result is \<open>True\<close> with the state in which the
  condition holds, or \<open>False\<close> with the state in which the condition is false and
  nothing can change it any more, because the dispatcher task has ended or waits in
  \<^verbatim>\<open>get\<close> on an empty queue: the caller waits forever. An exception that leaves
  \<^verbatim>\<open>_process_next\<close> ends the dispatcher task.
\<close>

function run_until :: "('m runtime \<Rightarrow> bool) \<Rightarrow> 'm runtime \<Rightarrow> bool \<times> 'm runtime" where
  "run_until condition rt =
     (if condition rt then (True, rt)
      else if run_context rt \<noteq> Some (RunContext False None) then (False, rt)
      else if message_queue rt = [] then (False, rt)
      else (case process_next rt of
              None \<Rightarrow> (False, rt)
            | Some (Inl e, rt') \<Rightarrow>
                run_until condition (rt'\<lparr>run_context := Some (RunContext False (Some e))\<rparr>)
            | Some (Inr _, rt') \<Rightarrow> run_until condition rt'))"
  by pat_completeness auto
termination
  by (relation "measure (\<lambda>(c, rt). queue_weight rt)")
     (auto dest: queue_weight_process_next simp: queue_weight_def)

declare run_until.simps [simp del]

text \<open>
  \<open>RunContext.stop\<close>: set the event, shut the queue down at once, await the dispatcher
  task (which re-raises the exception that ended it). The runtime then forgets the run
  context and takes a new queue.
\<close>

definition run_context_stop :: "'m runtime \<Rightarrow> (exn + unit) \<times> 'm runtime" where
  "run_context_stop rt =
     (case run_context rt of
        None \<Rightarrow> (Inr (), rt)
      | Some rc \<Rightarrow>
          (let rt1 = shutdown_immediate (rt\<lparr>run_context := Some (RunContext True (run_task rc))\<rparr>)
           in case run_task rc of Some e \<Rightarrow> (Inl e, rt1) | None \<Rightarrow> (Inr (), rt1)))"

definition stop :: "'m runtime \<Rightarrow> (exn + unit) \<times> 'm runtime" where
  "stop rt =
     (if run_context rt = None then (Inl (RuntimeError ''Runtime is not started''), rt)
      else and_then (run_context_stop rt)
             (\<lambda>_ rt1. (Inr (), fresh_queue (rt1\<lparr>run_context := None\<rparr>))))"

text \<open>
  \<^verbatim>\<open>stop_when_idle\<close> and \<^verbatim>\<open>stop_when\<close> may never return: the outcome is \<open>None\<close>
  then, and the state is the one the runtime is left in.

  \<open>RunContext.stop_when\<close> polls the condition, sleeping \<^verbatim>\<open>check_period\<close> between two
  polls while the dispatcher task runs on. How many envelopes the dispatcher handles
  during one sleep is a matter of timing: \<open>periods\<close> lists these numbers for the sleeps
  in which the dispatcher is still busy. After them the dispatcher handles whatever is
  left until it waits on the empty queue or has ended; the state then no longer
  changes, and a condition that is false there stays false. The condition reads the
  runtime state.
\<close>

fun run_steps :: "nat \<Rightarrow> 'm runtime \<Rightarrow> 'm runtime" where
  "run_steps 0 rt = rt"
| "run_steps (Suc n) rt =
     (if run_context rt \<noteq> Some (RunContext False None) then rt
      else (case process_next rt of
              None \<Rightarrow> rt
            | Some (Inl e, rt') \<Rightarrow> rt'\<lparr>run_context := Some (RunContext False (Some e))\<rparr>
            | Some (Inr _, rt') \<Rightarrow> run_steps n rt'))"

fun check_condition :: "('m runtime \<Rightarrow> bool) \<Rightarrow> nat list \<Rightarrow> 'm runtime \<Rightarrow> bool \<times> 'm runtime" where
  "check_condition condition [] rt =
     (if condition rt then (True, rt)
      else (condition (snd (run_until (\<lambda>_. False) rt)), snd (run_until (\<lambda>_. False) rt)))"
| "check_condition condition (n # periods) rt =
     (if condition rt then (True, rt)
      else check_condition condition periods (run_steps n rt))"

definition stop_when ::
  "('m runtime \<Rightarrow> bool) \<Rightarrow> nat list \<Rightarrow> 'm runtime \<Rightarrow> (exn + unit) option \<times> 'm runtime" where
  "stop_when condition periods rt =
     (if run_context rt = None then (Some (Inl (RuntimeError ''Runtime is not started'')), rt)
      else (case check_condition condition periods rt of
              (False, rt1) \<Rightarrow> (None, rt1)
            | (True, rt1) \<Rightarrow> (case stop rt1 of (r, rt2) \<Rightarrow> (Some r, rt2))))"

definition stop_when_idle :: "'m runtime \<Rightarrow> (exn + unit) option \<times> 'm runtime" where
  "stop_when_idle rt =
     (if run_context rt = None then (Some (Inl (RuntimeError ''Runtime is not started'')), rt)
      else (case run_until (\<lambda>rt. unfinished_tasks rt = 0) rt of
              (False, rt1) \<Rightarrow> (None, rt1)
            | (True, rt1) \<Rightarrow> (case stop rt1 of (r, rt2) \<Rightarrow> (Some r, rt2))))"

subsection \<open>The lifetime of a runtime\<close>

text \<open>
  What can happen to a runtime while it lives: the calls of its interface, among them
  \<^verbatim>\<open>process_next\<close> (one manual dispatcher step) and \<open>GetAgent\<close> for the methods
  that only resolve an agent (\<^verbatim>\<open>agent_metadata\<close>, \<^verbatim>\<open>get\<close> with
  \<^verbatim>\<open>lazy=False\<close>), and what the owner of a cancellation token does with it: create it
  (\<^verbatim>\<open>CancellationToken()\<close>) and cancel it.
\<close>

datatype 'm action =
    Register string "'m factory"
  | RegisterFactory string "AgentId \<Rightarrow> exn + 'm Agent" string
  | GetAgent AgentId
  | SendMessage 'm AgentId "AgentId option" "nat option"
  | PublishMessage 'm TopicId "AgentId option" "nat option" "string option" string
  | CreateToken
  | Cancel nat
  | ProcessNext
  | Start
  | Stop
  | StopWhenIdle
  | StopWhen "'m runtime \<Rightarrow> bool" "nat list"

fun perform :: "'m action \<Rightarrow> 'm runtime \<Rightarrow> 'm runtime" where
  "perform (Register ty agent_factory) rt = snd (register ty agent_factory rt)"
| "perform (RegisterFactory ty agent_factory expected_class) rt =
     snd (register_factory ty agent_factory expected_class rt)"
| "perform (GetAgent agent_id) rt = snd (get_agent agent_id rt)"
| "perform (SendMessage message recipient sender_id token) rt =
     snd (send_message message recipient sender_id token rt)"
| "perform (PublishMessage message topic sender_id token msg_id uuid4) rt =
     snd (publish_message message topic sender_id token msg_id uuid4 rt)"
| "perform CreateToken rt = snd (create_token rt)"
| "perform (Cancel t) rt = cancel t rt"
| "perform ProcessNext rt = (case process_next rt of None \<Rightarrow> rt | Some (r, rt') \<Rightarrow> rt')"
| "perform Start rt = snd (start rt)"
| "perform Stop rt = snd (stop rt)"
| "perform StopWhenIdle rt = snd (stop_when_idle rt)"
| "perform (StopWhen condition periods) rt = snd (stop_when condition periods rt)"

definition lifetime :: "'m action list \<Rightarrow> 'm runtime \<Rightarrow> 'm runtime" where
  "lifetime actions rt = fold perform actions rt"

section \<open>A fresh runtime and the agents of the scenarios\<close>

text \<open>
  \<^verbatim>\<open>__init__\<close>. The subscriptions are held by the subscription manager, which is not
  among the sources; the runtime only asks it for the recipients of a topic, so the
  answer is a parameter of the state.
\<close>

definition init_runtime ::
  "'m InterventionHandler list option \<Rightarrow> (TopicId \<Rightarrow> AgentId list) \<Rightarrow> 'm runtime" where
  "init_runtime handlers subscriptions =
     \<lparr>message_queue = [], unfinished_tasks = 0, is_shutdown = False,
      agent_factories = Map.empty, instantiated_agents = Map.empty,
      intervention_handlers = handlers, subscribed_recipients = subscriptions,
      run_context = None,
      futures = (\<lambda>_. Pending), next_future = 0,
      tokens = (\<lambda>_. \<lparr>is_cancelled = False, callbacks = []\<rparr>), next_token = 0,
      trace = []\<rparr>"

definition no_subscriptions :: "TopicId \<Rightarrow> AgentId list" where
  "no_subscriptions topic = []"

definition empty_runtime :: "string runtime" where
  "empty_runtime = init_runtime None no_subscriptions"

definition echo_agent :: "string Agent" where
  "echo_agent = \<lparr>agent_class = ''EchoAgent'', on_message = (\<lambda>m ctx. Inr m)\<rparr>"

definition echo_factory :: "AgentId \<Rightarrow> exn + string Agent" where
  "echo_factory agent_id = Inr echo_agent"

definition echo_id :: AgentId where
  "echo_id = AgentId ''echo'' ''default''"

definition always_true :: "string runtime \<Rightarrow> bool" where
  "always_true rt = True"

text \<open>Intervention handlers: one that appends a suffix to the message, one that drops it.\<close>

definition append_handler :: "string \<Rightarrow> string InterventionHandler" where
  "append_handler suffix =
     \<lparr>on_send = (\<lambda>m s r. Message (m @ suffix)),
      on_publish = (\<lambda>m s. Message (m @ suffix)),
      on_response = (\<lambda>m s r. Message (m @ suffix))\<rparr>"

definition drop_handler :: "string InterventionHandler" where
  "drop_handler =
     \<lparr>on_send = (\<lambda>m s r. DropMessage),
      on_publish = (\<lambda>m s. DropMessage),
      on_response = (\<lambda>m s r. DropMessage)\<rparr>"

definition echo_runtime :: "string InterventionHandler list option \<Rightarrow> string runtime" where
  "echo_runtime handlers =
     snd (start (snd (register_factory ''echo'' echo_factory ''EchoAgent''
                        (init_runtime handlers no_subscriptions))))"

definition chain_runtime :: "string runtime" where
  "chain_runtime =
     snd (send_message ''hi'' echo_id None None
            (echo_runtime (Some [append_handler ''A'', append_handler ''B''])))"

definition drop_runtime :: "string runtime" where
  "drop_runtime = snd (send_message ''hi'' echo_id None None (echo_runtime (Some [drop_handler])))"

definition news_topic :: TopicId where
  "news_topic = ''news''"

definition drop_publish_runtime :: "string runtime" where
  "drop_publish_runtime =
     snd (publish_message ''x'' news_topic None None None ''id-1'' (echo_runtime (Some [drop_handler])))"

text \<open>The definitions a concrete run unfolds.\<close>

lemmas eval_defs = echo_runtime_def init_runtime_def register_factory_def start_def
  send_message_def create_token_def create_future_def put_def and_then_def log_event_def
  link_future_def set_exception_def echo_id_def process_next_def process_send_def send_to_agent_def
  get_agent_def invoke_agent_factory_def factory_wrapper_def echo_factory_def echo_agent_def
  create_task_def task_done_def cancelled_def set_result_def process_response_def

section \<open>Lifecycle misuse\<close>

text \<open>
  C8. \<^verbatim>\<open>start()\<close> on a runtime that is running raises \<^verbatim>\<open>RuntimeError\<close>, and
  \<^verbatim>\<open>stop()\<close>, \<^verbatim>\<open>stop_when_idle()\<close> and \<^verbatim>\<open>stop_when()\<close> on a runtime that is
  not running raise \<^verbatim>\<open>RuntimeError\<close>; the call returns to its caller with the
  exception and the runtime state is the one before the call.
\<close>

theorem lifecycle_misuse:
  "(run_context rt \<noteq> None \<longrightarrow>
      start rt = (Inl (RuntimeError ''Runtime is already started''), rt)) \<and>
   (run_context rt = None \<longrightarrow>
      stop rt = (Inl (RuntimeError ''Runtime is not started''), rt) \<and>
      stop_when_idle rt = (Some (Inl (RuntimeError ''Runtime is not started'')), rt) \<and>
      stop_when condition periods rt = (Some (Inl (RuntimeError ''Runtime is not started'')), rt))"
  by (simp add: start_def stop_def stop_when_idle_def stop_when_def)

theorem lifecycle_misuse_witness:
  "run_context (snd (start empty_runtime)) \<noteq> None \<and>
   start (snd (start empty_runtime)) =
     (Inl (RuntimeError ''Runtime is already started''), snd (start empty_runtime)) \<and>
   run_context empty_runtime = None \<and>
   stop empty_runtime = (Inl (RuntimeError ''Runtime is not started''), empty_runtime) \<and>
   stop_when_idle empty_runtime = (Some (Inl (RuntimeError ''Runtime is not started'')), empty_runtime) \<and>
   stop_when always_true [1] empty_runtime =
     (Some (Inl (RuntimeError ''Runtime is not started'')), empty_runtime)"
proof -
  have running: "run_context (snd (start empty_runtime)) \<noteq> None"
    by (simp add: start_def empty_runtime_def init_runtime_def)
  have idle: "run_context empty_runtime = None"
    by (simp add: empty_runtime_def init_runtime_def)
  show ?thesis
    using running idle
      lifecycle_misuse [of "snd (start empty_runtime)" always_true "[1]"]
      lifecycle_misuse [of empty_runtime always_true "[1]"]
    by simp
qed

section \<open>The intervention pipeline\<close>

text \<open>
  C1. The claim: the handlers run in registration order, handler \<open>i+1\<close> is passed what
  handler \<open>i\<close> returned, and the message delivered is what the last handler returned.
  The code calls every handler with the variable \<^verbatim>\<open>message\<close> that the \<^verbatim>\<open>match\<close>
  statement bound, and assigns each result to \<^verbatim>\<open>message_envelope.message\<close> only.
  With two handlers that append \<open>A\<close> and \<open>B\<close>, a Send of \<open>hi\<close> reaches the second
  handler as \<open>hi\<close>, not \<open>hiA\<close>, and the agent receives \<open>hiB\<close>, not \<open>hiAB\<close>.
\<close>

theorem intervention_chain_stale_message:
  "map_option (trace \<circ> snd) (process_next chain_runtime) =
     Some [Put (SendMessageEnvelope ''hi'' None echo_id 0 0),
           OnSend 0 ''hi'', OnSend 1 ''hi'',
           FactoryCall echo_id,
           OnMessage echo_id ''hiB''
             \<lparr>sender = None, topic_id = None, is_rpc = True, cancellation_token = 0,
              message_id = ''NOT_DEFINED_TODO_FIX''\<rparr>,
           Put (ResponseMessageEnvelope ''hiB'' 0 echo_id None),
           TaskDone]"
  by (simp add: chain_runtime_def eval_defs append_handler_def)

text \<open>
  C2. The claim: every envelope that was put gets exactly one \<^verbatim>\<open>task_done()\<close>, also
  one that an intervention handler dropped, so that \<^verbatim>\<open>stop_when_idle()\<close> returns
  with as many \<^verbatim>\<open>task_done()\<close> as \<^verbatim>\<open>put()\<close>. The code returns from
  \<^verbatim>\<open>_process_next\<close> on a drop without \<^verbatim>\<open>task_done()\<close>: after a Send that the only
  handler drops, one \<^verbatim>\<open>put\<close> and no \<^verbatim>\<open>task_done\<close> have happened, the queue is
  empty with one task outstanding, and \<^verbatim>\<open>stop_when_idle()\<close> never returns.
\<close>

theorem dropped_send_blocks_stop_when_idle:
  "fst (stop_when_idle drop_runtime) = None \<and>
   trace (snd (stop_when_idle drop_runtime)) =
     [Put (SendMessageEnvelope ''hi'' None echo_id 0 0), OnSend 0 ''hi''] \<and>
   unfinished_tasks (snd (stop_when_idle drop_runtime)) = 1 \<and>
   message_queue (snd (stop_when_idle drop_runtime)) = [] \<and>
   futures (snd (stop_when_idle drop_runtime)) 0 = Failed MessageDroppedException"
  by (simp add: drop_runtime_def stop_when_idle_def run_until.simps eval_defs drop_handler_def)

text \<open>A handler that drops, after handlers that pass the message on.\<close>

lemma map_upt_head: "map g [i..<i + Suc n] = g i # map g [Suc i..<Suc i + n]"
  by (simp add: upt_conv_Cons del: upt_Suc)

lemma send_interventions_drop:
  "k < length hs \<Longrightarrow> \<forall>j<k. \<exists>m'. on_send (hs ! j) m s r = Message m' \<Longrightarrow>
   on_send (hs ! k) m s r = DropMessage \<Longrightarrow> futures rt f = Pending \<Longrightarrow>
   send_interventions hs i m s r f em rt =
     (Inr None, rt\<lparr>trace := trace rt @ map (\<lambda>j. OnSend j m) [i..<i + Suc k],
                   futures := (futures rt)(f := Failed MessageDroppedException)\<rparr>)"
proof (induction hs arbitrary: k i em rt)
  case Nil
  then show ?case by simp
next
  case (Cons h hs)
  show ?case
  proof (cases k)
    case 0
    then show ?thesis
      using Cons.prems by (simp add: and_then_def set_exception_def log_event_def fun_upd_def)
  next
    case (Suc k')
    from Cons.prems Suc obtain m' where h: "on_send h m s r = Message m'"
      by fastforce
    have rest: "\<forall>j<k'. \<exists>m'. on_send (hs ! j) m s r = Message m'"
      using Cons.prems(2) Suc by fastforce
    have "send_interventions hs (Suc i) m s r f m' (log_event (OnSend i m) rt) =
            (Inr None, (log_event (OnSend i m) rt)
               \<lparr>trace := trace (log_event (OnSend i m) rt) @ map (\<lambda>j. OnSend j m) [Suc i..<Suc i + Suc k'],
                futures := (futures (log_event (OnSend i m) rt))(f := Failed MessageDroppedException)\<rparr>)"
      using Cons.prems Suc rest by (intro Cons.IH) (simp_all add: log_event_def)
    then show ?thesis
      unfolding Suc map_upt_head [of _ i "Suc k'"]
      using h by (simp add: log_event_def fun_upd_def del: upt_Suc)
  qed
qed


lemma publish_interventions_drop:
  "k < length hs \<Longrightarrow> \<forall>j<k. \<exists>m'. on_publish (hs ! j) m s = Message m' \<Longrightarrow>
   on_publish (hs ! k) m s = DropMessage \<Longrightarrow>
   publish_interventions hs i m s em rt =
     (Inr None, rt\<lparr>trace := trace rt @ map (\<lambda>j. OnPublish j m) [i..<i + Suc k]\<rparr>)"
proof (induction hs arbitrary: k i em rt)
  case Nil
  then show ?case by simp
next
  case (Cons h hs)
  show ?case
  proof (cases k)
    case 0
    then show ?thesis
      using Cons.prems by (simp add: log_event_def)
  next
    case (Suc k')
    from Cons.prems Suc obtain m' where h: "on_publish h m s = Message m'"
      by fastforce
    have rest: "\<forall>j<k'. \<exists>m'. on_publish (hs ! j) m s = Message m'"
      using Cons.prems(2) Suc by fastforce
    have "publish_interventions hs (Suc i) m s m' (log_event (OnPublish i m) rt) =
            (Inr None, (log_event (OnPublish i m) rt)
               \<lparr>trace := trace (log_event (OnPublish i m) rt) @
                          map (\<lambda>j. OnPublish j m) [Suc i..<Suc i + Suc k']\<rparr>)"
      using Cons.prems Suc rest by (intro Cons.IH) simp_all
    then show ?thesis
      unfolding Suc map_upt_head [of _ i "Suc k'"]
      using h by (simp add: log_event_def del: upt_Suc)
  qed
qed

definition ghost_id :: AgentId where
  "ghost_id = AgentId ''x'' ''y''"

definition ghost_drop_runtime :: "string runtime" where
  "ghost_drop_runtime =
     snd (send_message ''hi'' ghost_id None None
            (snd (start (init_runtime (Some [drop_handler]) no_subscriptions))))"

definition late_drop_handlers :: "string InterventionHandler list" where
  "late_drop_handlers = [append_handler ''A'', drop_handler, append_handler ''B'']"

definition late_drop_runtime :: "string runtime" where
  "late_drop_runtime =
     snd (send_message ''hi'' echo_id None None (echo_runtime (Some late_drop_handlers)))"

definition late_drop_publish_runtime :: "string runtime" where
  "late_drop_publish_runtime =
     snd (publish_message ''x'' news_topic None None None ''id-1''
            (echo_runtime (Some late_drop_handlers)))"

text \<open>
  C5, as the claim states it: whenever a handler returns \<^verbatim>\<open>DropMessage\<close> for a Send
  envelope, the caller's future is settled with \<^verbatim>\<open>MessageDroppedException\<close>. A
  future can be settled once. \<^verbatim>\<open>send_message\<close> to a type that is not registered
  has already set "Recipient not found" on the future when it enqueues the envelope;
  when the handler then drops the envelope the future keeps that exception, and the
  \<^verbatim>\<open>set_exception\<close> of the drop raises \<^verbatim>\<open>InvalidStateError\<close> out of
  \<^verbatim>\<open>_process_next\<close>.
\<close>

theorem drop_settled_handle_counterexample:
  "on_send drop_handler ''hi'' None ghost_id = DropMessage \<and>
   futures ghost_drop_runtime 0 = Failed (Exception ''Recipient not found'') \<and>
   map_option fst (process_next ghost_drop_runtime) = Some (Inl InvalidStateError) \<and>
   futures (perform ProcessNext ghost_drop_runtime) 0 = Failed (Exception ''Recipient not found'')"
  by (simp add: ghost_drop_runtime_def ghost_id_def drop_handler_def eval_defs)

text \<open>
  C5, amended. If handler \<open>k\<close> of the pipeline returns \<^verbatim>\<open>DropMessage\<close> for a Send
  envelope (the handlers before it having returned messages) and the caller's future
  is still pending, \<^verbatim>\<open>_process_next\<close> ends there: the future holds
  \<^verbatim>\<open>MessageDroppedException\<close>, the handlers after \<open>k\<close> are not called, no delivery
  task is created and so no \<^verbatim>\<open>on_message\<close> is invoked, and the envelope is gone from
  the queue. For a Publish envelope the envelope is gone from the queue and nothing
  else changes; no future is touched.
\<close>

theorem drop_message_semantics:
  "intervention_handlers rt = Some hs \<Longrightarrow> k < length hs \<Longrightarrow>
   (message_queue rt = SendMessageEnvelope m s r f t # q \<and>
    (\<forall>j<k. \<exists>m'. on_send (hs ! j) m s r = Message m') \<and>
    on_send (hs ! k) m s r = DropMessage \<and> futures rt f = Pending
    \<longrightarrow> process_next rt =
          Some (Inr (), rt\<lparr>message_queue := q,
                           trace := trace rt @ map (\<lambda>j. OnSend j m) [0..<Suc k],
                           futures := (futures rt)(f := Failed MessageDroppedException)\<rparr>)) \<and>
   (message_queue rt = PublishMessageEnvelope m t s tp i # q \<and>
    (\<forall>j<k. \<exists>m'. on_publish (hs ! j) m s = Message m') \<and>
    on_publish (hs ! k) m s = DropMessage
    \<longrightarrow> process_next rt =
          Some (Inr (), rt\<lparr>message_queue := q,
                           trace := trace rt @ map (\<lambda>j. OnPublish j m) [0..<Suc k]\<rparr>))"
proof (intro conjI impI)
  assume hs: "intervention_handlers rt = Some hs" and k: "k < length hs"
  {
    assume a: "message_queue rt = SendMessageEnvelope m s r f t # q \<and>
      (\<forall>j<k. \<exists>m'. on_send (hs ! j) m s r = Message m') \<and>
      on_send (hs ! k) m s r = DropMessage \<and> futures rt f = Pending"
    have "send_interventions hs 0 m s r f m (rt\<lparr>message_queue := q\<rparr>) =
            (Inr None, (rt\<lparr>message_queue := q\<rparr>)
               \<lparr>trace := trace (rt\<lparr>message_queue := q\<rparr>) @ map (\<lambda>j. OnSend j m) [0..<0 + Suc k],
                futures := (futures (rt\<lparr>message_queue := q\<rparr>))(f := Failed MessageDroppedException)\<rparr>)"
      using a k by (intro send_interventions_drop) simp_all
    then show "process_next rt =
          Some (Inr (), rt\<lparr>message_queue := q,
                           trace := trace rt @ map (\<lambda>j. OnSend j m) [0..<Suc k],
                           futures := (futures rt)(f := Failed MessageDroppedException)\<rparr>)"
      using a hs by (simp add: process_next_def and_then_def fun_upd_def del: upt_Suc)
  }
  {
    assume a: "message_queue rt = PublishMessageEnvelope m t s tp i # q \<and>
      (\<forall>j<k. \<exists>m'. on_publish (hs ! j) m s = Message m') \<and>
      on_publish (hs ! k) m s = DropMessage"
    have "publish_interventions hs 0 m s m (rt\<lparr>message_queue := q\<rparr>) =
            (Inr None, (rt\<lparr>message_queue := q\<rparr>)
               \<lparr>trace := trace (rt\<lparr>message_queue := q\<rparr>) @ map (\<lambda>j. OnPublish j m) [0..<0 + Suc k]\<rparr>)"
      using a k by (intro publish_interventions_drop) simp_all
    then show "process_next rt =
          Some (Inr (), rt\<lparr>message_queue := q,
                           trace := trace rt @ map (\<lambda>j. OnPublish j m) [0..<Suc k]\<rparr>)"
      using a hs by (simp add: process_next_def and_then_def del: upt_Suc)
  }
qed

theorem drop_message_semantics_witness:
  "process_next late_drop_runtime =
     Some (Inr (), late_drop_runtime\<lparr>message_queue := [],
                                 trace := trace late_drop_runtime @ [OnSend 0 ''hi'', OnSend 1 ''hi''],
                                 futures := (futures late_drop_runtime)(0 := Failed MessageDroppedException)\<rparr>) \<and>
   process_next late_drop_publish_runtime =
     Some (Inr (), late_drop_publish_runtime\<lparr>message_queue := [],
                                         trace := trace late_drop_publish_runtime @
                                                    [OnPublish 0 ''x'', OnPublish 1 ''x'']\<rparr>)"
proof -
  have h: "intervention_handlers late_drop_runtime = Some late_drop_handlers"
    "message_queue late_drop_runtime = [SendMessageEnvelope ''hi'' None echo_id 0 0]"
    "futures late_drop_runtime 0 = Pending"
    by (simp_all add: late_drop_runtime_def eval_defs)
  have p: "intervention_handlers late_drop_publish_runtime = Some late_drop_handlers"
    "message_queue late_drop_publish_runtime = [PublishMessageEnvelope ''x'' 0 None news_topic ''id-1'']"
    by (simp_all add: late_drop_publish_runtime_def publish_message_def eval_defs Let_def)
  have k: "1 < length late_drop_handlers"
    by (simp add: late_drop_handlers_def)
  have d: "\<forall>j<1. \<exists>m'. on_send (late_drop_handlers ! j) ''hi'' None echo_id = Message m'"
    "on_send (late_drop_handlers ! 1) ''hi'' None echo_id = DropMessage"
    "\<forall>j<1. \<exists>m'. on_publish (late_drop_handlers ! j) ''x'' None = Message m'"
    "on_publish (late_drop_handlers ! 1) ''x'' None = DropMessage"
    by (simp_all add: late_drop_handlers_def drop_handler_def append_handler_def)
  have u: "[0..<Suc 1] = [0, 1]"
    by (simp add: upt_rec)
  show ?thesis
    using
      drop_message_semantics [where rt = late_drop_runtime and hs = late_drop_handlers and k = 1
        and m = "''hi''" and s = None and r = echo_id and f = 0 and t = 0 and q = "[]"]
      drop_message_semantics [where rt = late_drop_publish_runtime and hs = late_drop_handlers and k = 1
        and m = "''x''" and s = None and t = 0 and tp = news_topic and i = "''id-1''" and q = "[]"]
      h p d k u
    by simp
qed

section \<open>The instance cache over the lifetime of a runtime\<close>

text \<open>
  \<open>cache_extends rt rt'\<close>: every instance cached in \<open>rt\<close> is the instance cached in
  \<open>rt'\<close>, and between the two states its factory was not called.
\<close>

definition cache_extends :: "'m runtime \<Rightarrow> 'm runtime \<Rightarrow> bool" where
  "cache_extends rt rt' \<longleftrightarrow>
     (\<forall>a ag. instantiated_agents rt a = Some ag \<longrightarrow>
        instantiated_agents rt' a = Some ag \<and>
        count_list (trace rt') (FactoryCall a) = count_list (trace rt) (FactoryCall a))"

lemma ce_refl [simp]: "cache_extends rt rt"
  by (simp add: cache_extends_def)

lemma ce_trans: "cache_extends rt rt1 \<Longrightarrow> cache_extends rt1 rt2 \<Longrightarrow> cache_extends rt rt2"
  by (auto simp: cache_extends_def)

lemma ce_fields:
  "instantiated_agents rt' = instantiated_agents rt \<Longrightarrow>
   (\<And>a. count_list (trace rt') (FactoryCall a) = count_list (trace rt) (FactoryCall a)) \<Longrightarrow>
   cache_extends rt0 rt' = cache_extends rt0 rt"
  by (simp add: cache_extends_def)

lemma ce_updates [simp]:
  "cache_extends rt0 (rt\<lparr>futures := fs\<rparr>) = cache_extends rt0 rt"
  "cache_extends rt0 (rt\<lparr>tokens := ts\<rparr>) = cache_extends rt0 rt"
  "cache_extends rt0 (rt\<lparr>next_future := n\<rparr>) = cache_extends rt0 rt"
  "cache_extends rt0 (rt\<lparr>next_token := n\<rparr>) = cache_extends rt0 rt"
  "cache_extends rt0 (rt\<lparr>message_queue := q\<rparr>) = cache_extends rt0 rt"
  "cache_extends rt0 (rt\<lparr>unfinished_tasks := n\<rparr>) = cache_extends rt0 rt"
  "cache_extends rt0 (rt\<lparr>is_shutdown := b\<rparr>) = cache_extends rt0 rt"
  "cache_extends rt0 (rt\<lparr>run_context := rc\<rparr>) = cache_extends rt0 rt"
  "cache_extends rt0 (rt\<lparr>agent_factories := fm\<rparr>) = cache_extends rt0 rt"
  by (simp_all add: cache_extends_def)

lemma ce_log_event [simp]:
  "(\<And>a. e \<noteq> FactoryCall a) \<Longrightarrow> cache_extends rt0 (log_event e rt) = cache_extends rt0 rt"
  by (rule ce_fields) (simp_all add: log_event_def)

lemma ce_and_then [simp]:
  "cache_extends rt0 (snd r) \<Longrightarrow> (\<And>v s. cache_extends rt0 s \<Longrightarrow> cache_extends rt0 (snd (f v s))) \<Longrightarrow>
   cache_extends rt0 (snd (and_then r f))"
  by (cases r; cases "fst r") (auto simp: and_then_def)

lemma ce_set_exception [simp]:
  "cache_extends rt0 (snd (set_exception f e rt)) = cache_extends rt0 rt"
  by (rule ce_fields) (simp_all add: set_exception_def)

lemma ce_set_result [simp]:
  "cache_extends rt0 (snd (set_result f v rt)) = cache_extends rt0 rt"
  by (rule ce_fields) (simp_all add: set_result_def)

lemma ce_cancel_future [simp]:
  "cache_extends rt0 (cancel_future f rt) = cache_extends rt0 rt"
  by (rule ce_fields) (simp_all add: cancel_future_def)

lemma ce_task_done [simp]:
  "cache_extends rt0 (snd (task_done rt)) = cache_extends rt0 rt"
  by (rule ce_fields) (simp_all add: task_done_def log_event_def)

lemma ce_put [simp]:
  "cache_extends rt0 (snd (put env rt)) = cache_extends rt0 rt"
  by (rule ce_fields) (simp_all add: put_def log_event_def)

lemma get_agent_cached:
  "instantiated_agents rt b = Some ag \<Longrightarrow> get_agent b rt = (Inr ag, rt)"
  by (simp add: get_agent_def)

lemma get_agent_other:
  "a \<noteq> b \<Longrightarrow>
   instantiated_agents (snd (get_agent b rt)) a = instantiated_agents rt a \<and>
   count_list (trace (snd (get_agent b rt))) (FactoryCall a) = count_list (trace rt) (FactoryCall a)"
  by (simp add: get_agent_def invoke_agent_factory_def log_event_def
           split: option.splits sum.splits)

lemma ce_get_agent [simp]:
  assumes "cache_extends rt0 rt"
  shows "cache_extends rt0 (snd (get_agent b rt))"
  unfolding cache_extends_def
proof (intro allI impI)
  fix a ag
  assume "instantiated_agents rt0 a = Some ag"
  then have here: "instantiated_agents rt a = Some ag"
    and calls: "count_list (trace rt) (FactoryCall a) = count_list (trace rt0) (FactoryCall a)"
    using assms by (simp_all add: cache_extends_def)
  show "instantiated_agents (snd (get_agent b rt)) a = Some ag \<and>
        count_list (trace (snd (get_agent b rt))) (FactoryCall a) =
        count_list (trace rt0) (FactoryCall a)"
  proof (cases "a = b")
    case True
    then show ?thesis
      using here calls by (simp add: get_agent_cached)
  next
    case False
    then show ?thesis
      using here calls get_agent_other [of a b rt] by simp
  qed
qed

lemma ce_process_send [simp]:
  "cache_extends rt0 rt \<Longrightarrow> cache_extends rt0 (snd (process_send m s r f t rt))"
  by (simp add: process_send_def send_to_agent_def case_prod_beta Let_def split: sum.splits)

lemma ce_publish_recipients [simp]:
  "cache_extends rt0 rt \<Longrightarrow> cache_extends rt0 (snd (publish_recipients rs s c acc rt))"
  by (induction rs arbitrary: acc rt) (simp_all split: option.splits)

lemma snd_gather_Cons:
  "snd (gather ((a, ag, c) # rs) m rt) = snd (gather rs m (log_event (OnMessage a m c) rt))"
  by (simp add: case_prod_beta split: sum.splits)

lemma ce_gather [simp]:
  "cache_extends rt0 (snd (gather rs m rt)) = cache_extends rt0 rt"
proof (induction rs arbitrary: rt)
  case Nil
  show ?case by simp
next
  case (Cons x rs)
  obtain a ag c where x: "x = (a, ag, c)" by (cases x)
  show ?case
    unfolding x snd_gather_Cons by (simp add: Cons.IH)
qed

lemma ce_process_publish [simp]:
  "cache_extends rt0 rt \<Longrightarrow> cache_extends rt0 (snd (process_publish m t s tp i rt))"
  by (simp add: process_publish_def case_prod_beta split: sum.splits)

lemma ce_process_response [simp]:
  "cache_extends rt0 rt \<Longrightarrow> cache_extends rt0 (snd (process_response m f rt))"
  by (simp add: process_response_def)

lemma ce_create_task [simp]:
  "cache_extends rt0 (create_task r) = cache_extends rt0 (snd r)"
  by (simp add: create_task_def case_prod_beta split: sum.splits)

lemma ce_send_interventions [simp]:
  "cache_extends rt0 (snd (send_interventions hs i m s r f em rt)) = cache_extends rt0 rt"
  by (induction hs arbitrary: i em rt) (simp_all add: and_then_def case_prod_beta split: intervention.splits sum.splits)

lemma ce_publish_interventions [simp]:
  "cache_extends rt0 (snd (publish_interventions hs i m s em rt)) = cache_extends rt0 rt"
  by (induction hs arbitrary: i em rt) (simp_all split: intervention.splits)

lemma ce_response_interventions [simp]:
  "cache_extends rt0 (snd (response_interventions hs i m s r f em rt)) = cache_extends rt0 rt"
  by (induction hs arbitrary: i em rt) (simp_all add: and_then_def case_prod_beta split: intervention.splits sum.splits)

lemma ce_dispatch [simp]:
  "cache_extends rt0 rt \<Longrightarrow> cache_extends rt0 (snd (dispatch env rt))"
  by (cases env) (simp_all split: option.splits)


lemma ce_process_next:
  "cache_extends rt0 rt \<Longrightarrow> process_next rt = Some (r, rt') \<Longrightarrow> cache_extends rt0 rt'"
proof -
  assume a: "cache_extends rt0 rt" and b: "process_next rt = Some (r, rt')"
  show ?thesis
  proof (cases "message_queue rt")
    case Nil
    then show ?thesis using a b by (simp add: process_next_def split: if_splits)
  next
    case (Cons env rest)
    have "cache_extends rt0 (rt\<lparr>message_queue := rest\<rparr>)"
      using a by (simp add: cache_extends_def)
    then have "cache_extends rt0 (snd (dispatch env (rt\<lparr>message_queue := rest\<rparr>)))"
      by (rule ce_dispatch)
    then show ?thesis using b Cons by (auto simp: process_next_def)
  qed
qed

lemma ce_run_until:
  "cache_extends rt0 rt \<Longrightarrow> cache_extends rt0 (snd (run_until c rt))"
proof (induction c rt rule: run_until.induct)
  case (1 condition rt)
  show ?case
  proof (cases "condition rt \<or> run_context rt \<noteq> Some (RunContext False None) \<or> message_queue rt = []")
    case True
    then show ?thesis using "1.prems" by (subst run_until.simps) auto
  next
    case False
    show ?thesis
    proof (cases "process_next rt")
      case None
      then show ?thesis using False "1.prems" by (subst run_until.simps) simp
    next
      case (Some p)
      obtain r rt' where p: "p = (r, rt')" by (cases p)
      have ext: "cache_extends rt0 rt'"
        using ce_process_next [OF "1.prems"] Some p by simp
      show ?thesis
      proof (cases r)
        case (Inl e)
        have "cache_extends rt0 (rt'\<lparr>run_context := Some (RunContext False (Some e))\<rparr>)"
          using ext by (simp add: cache_extends_def)
        then show ?thesis
          using False Some p Inl "1.IH"(1) by (subst run_until.simps) simp
      next
        case (Inr u)
        then show ?thesis
          using False Some p ext "1.IH"(2) by (subst run_until.simps) simp
      qed
    qed
  qed
qed

lemma ce_stop: "cache_extends rt0 rt \<Longrightarrow> cache_extends rt0 (snd (stop rt))"
  by (auto simp: stop_def run_context_stop_def and_then_def shutdown_immediate_def fresh_queue_def
        cache_extends_def Let_def split: option.splits)

lemma ce_run_steps: "cache_extends rt0 rt \<Longrightarrow> cache_extends rt0 (run_steps n rt)"
proof (induction n arbitrary: rt)
  case 0
  then show ?case by simp
next
  case (Suc n)
  show ?case
  proof (cases "process_next rt")
    case None
    then show ?thesis using Suc.prems by simp
  next
    case (Some p)
    obtain r rt' where p: "p = (r, rt')" by (cases p)
    have "cache_extends rt0 rt'"
      using ce_process_next [OF Suc.prems] Some p by simp
    then show ?thesis
      using Some p Suc.prems Suc.IH by (cases r) simp_all
  qed
qed

lemma ce_check_condition:
  "cache_extends rt0 rt \<Longrightarrow> cache_extends rt0 (snd (check_condition c periods rt))"
  by (induction periods arbitrary: rt) (simp_all add: ce_run_until ce_run_steps)

lemma ce_stop_when: "cache_extends rt0 rt \<Longrightarrow> cache_extends rt0 (snd (stop_when c periods rt))"
  using ce_check_condition [of rt0 rt c periods]
    ce_stop [of rt0 "snd (check_condition c periods rt)"]
  by (simp add: stop_when_def case_prod_beta split: bool.splits)

lemma ce_stop_when_idle: "cache_extends rt0 rt \<Longrightarrow> cache_extends rt0 (snd (stop_when_idle rt))"
  using ce_run_until [of rt0 rt "\<lambda>rt. unfinished_tasks rt = 0"]
    ce_stop [of rt0 "snd (run_until (\<lambda>rt. unfinished_tasks rt = 0) rt)"]
  by (simp add: stop_when_idle_def case_prod_beta split: bool.splits)

lemma ce_link_future [simp]: "cache_extends rt0 (link_future t f rt) = cache_extends rt0 rt"
  by (rule ce_fields) (simp_all add: link_future_def cancel_future_def)

lemma ce_fold_cancel [simp]:
  "cache_extends rt0 (fold cancel_future fs rt) = cache_extends rt0 rt"
  by (induction fs arbitrary: rt) simp_all

lemma ce_cancel: "cache_extends rt0 (cancel t rt) = cache_extends rt0 rt"
  by (simp add: cancel_def)

lemma ce_send_message:
  "cache_extends rt0 rt \<Longrightarrow> cache_extends rt0 (snd (send_message m r s t rt))"
  by (simp add: send_message_def create_token_def create_future_def Let_def case_prod_beta
        split: option.splits)

lemma ce_publish_message:
  "cache_extends rt0 rt \<Longrightarrow> cache_extends rt0 (snd (publish_message m tp s t i u rt))"
  by (simp add: publish_message_def create_token_def Let_def case_prod_beta split: option.splits)

lemma ce_perform: "cache_extends rt0 rt \<Longrightarrow> cache_extends rt0 (perform act rt)"
proof (cases act)
  case ProcessNext
  assume "cache_extends rt0 rt"
  then show ?thesis
    using ProcessNext ce_process_next [of rt0 rt] by (auto split: option.splits)
next
  case (Register ty fac)
  assume "cache_extends rt0 rt"
  then show ?thesis using Register by (simp add: register_def)
next
  case (RegisterFactory ty fac cls)
  assume "cache_extends rt0 rt"
  then show ?thesis using RegisterFactory by (simp add: register_factory_def)
next
  case (GetAgent b)
  assume "cache_extends rt0 rt"
  then show ?thesis using GetAgent by simp
next
  case (SendMessage m r s t)
  assume "cache_extends rt0 rt"
  then show ?thesis using SendMessage by (simp add: ce_send_message)
next
  case (PublishMessage m tp s t i u)
  assume "cache_extends rt0 rt"
  then show ?thesis using PublishMessage by (simp add: ce_publish_message)
next
  case CreateToken
  assume "cache_extends rt0 rt"
  then show ?thesis using CreateToken by (simp add: create_token_def)
next
  case (Cancel t)
  assume "cache_extends rt0 rt"
  then show ?thesis using Cancel by (simp add: ce_cancel)
next
  case Start
  assume "cache_extends rt0 rt"
  then show ?thesis using Start by (simp add: start_def)
next
  case Stop
  assume "cache_extends rt0 rt"
  then show ?thesis using Stop by (simp add: ce_stop)
next
  case StopWhenIdle
  assume "cache_extends rt0 rt"
  then show ?thesis using StopWhenIdle by (simp add: ce_stop_when_idle)
next
  case (StopWhen c periods)
  assume "cache_extends rt0 rt"
  then show ?thesis using StopWhen by (simp add: ce_stop_when)
qed

lemma ce_lifetime: "cache_extends rt0 rt \<Longrightarrow> cache_extends rt0 (lifetime acts rt)"
  unfolding lifetime_def
  by (induction acts arbitrary: rt) (simp_all add: ce_perform)

text \<open>
  Resolves that do not overlap: for an agent id with no instance yet, whose type is
  bound to a factory of no or two parameters that makes the agent \<open>ag\<close>, the first
  \<^verbatim>\<open>_get_agent\<close> calls the factory once and caches \<open>ag\<close>; after any further
  operations the instance is still cached and the factory has not been called for the
  id again. This holds as long as every \<^verbatim>\<open>_get_agent\<close> runs from its cache test to
  its cache write with nothing in between.
\<close>

lemma resolve_without_overlap:
  assumes "instantiated_agents rt a = None"
    and "agent_factories rt (type a) = Some f"
    and "parameters f = 0 \<or> parameters f = 2"
    and "call f a = Inr ag"
  shows "get_agent a rt =
           (Inr ag, (log_event (FactoryCall a) rt)
                      \<lparr>instantiated_agents := (instantiated_agents rt)(a \<mapsto> ag)\<rparr>) \<and>
         instantiated_agents (lifetime acts (snd (get_agent a rt))) a = Some ag \<and>
         get_agent a (lifetime acts (snd (get_agent a rt))) =
           (Inr ag, lifetime acts (snd (get_agent a rt))) \<and>
         count_list (trace (lifetime acts (snd (get_agent a rt)))) (FactoryCall a) =
           Suc (count_list (trace rt) (FactoryCall a)) \<and>
         cache_extends rt (lifetime acts rt)"
proof -
  have first: "get_agent a rt =
           (Inr ag, (log_event (FactoryCall a) rt)
                      \<lparr>instantiated_agents := (instantiated_agents rt)(a \<mapsto> ag)\<rparr>)"
    using assms by (auto simp: get_agent_def invoke_agent_factory_def log_event_def)
  let ?rt1 = "snd (get_agent a rt)"
  have now: "instantiated_agents ?rt1 a = Some ag"
    and calls: "count_list (trace ?rt1) (FactoryCall a) = Suc (count_list (trace rt) (FactoryCall a))"
    by (simp_all add: first log_event_def)
  have "cache_extends ?rt1 (lifetime acts ?rt1)"
    by (rule ce_lifetime) simp
  then have later: "instantiated_agents (lifetime acts ?rt1) a = Some ag"
    and same: "count_list (trace (lifetime acts ?rt1)) (FactoryCall a) =
               count_list (trace ?rt1) (FactoryCall a)"
    using now by (simp_all add: cache_extends_def)
  have "cache_extends rt (lifetime acts rt)"
    by (rule ce_lifetime) simp
  then show ?thesis
    using first later same calls get_agent_cached [OF later] by simp
qed

subsection \<open>Resolves that overlap\<close>

lemma get_agent_phases:
  "get_agent agent_id rt = (case get_agent_begin agent_id rt of (p, rt') \<Rightarrow> get_agent_resume p rt')"
  by (simp add: get_agent_def get_agent_begin_def get_agent_resume_def invoke_agent_factory_def
        log_event_def split: option.splits sum.splits)

text \<open>
  Two iterations of \<^verbatim>\<open>_process_next\<close> on two Send envelopes, with no intervention
  handlers, in the schedule where the factory suspends: the first delivery task has
  called the factory and awaits it when the dispatcher takes the second envelope and
  creates the second task, which runs up to the same point; then the first task goes
  on to its end, then the second.
\<close>

definition overlapping_deliveries :: "'m runtime \<Rightarrow> 'm runtime option" where
  "overlapping_deliveries rt =
     (case (intervention_handlers rt, message_queue rt) of
        (None, SendMessageEnvelope m1 s1 r1 f1 t1 # SendMessageEnvelope m2 s2 r2 f2 t2 # rest) \<Rightarrow>
          (case get_agent_begin r1 (rt\<lparr>message_queue := SendMessageEnvelope m2 s2 r2 f2 t2 # rest\<rparr>) of
             (Returned r, rt1) \<Rightarrow> None
           | (Awaiting a1 made1, rt1) \<Rightarrow>
               (case get_agent_begin r2 (rt1\<lparr>message_queue := rest\<rparr>) of
                  (p2, rt2) \<Rightarrow>
                    Some (create_task (send_to_agent m2 s2 r2 f2 t2
                            (get_agent_resume p2
                               (create_task (send_to_agent m1 s1 r1 f1 t1
                                  (get_agent_resume (Awaiting a1 made1) rt2))))))))
      | _ \<Rightarrow> None)"

definition race_runtime :: "string runtime" where
  "race_runtime =
     snd (send_message ''b'' echo_id None None
            (snd (send_message ''a'' echo_id None None (echo_runtime None))))"

text \<open>
  C9. The claim: for every agent id the factory is called once, by the first
  \<^verbatim>\<open>_get_agent\<close>, and every later \<^verbatim>\<open>_get_agent\<close> returns the cached instance.
  \<^verbatim>\<open>_get_agent\<close> tests the cache, awaits the factory and only then writes the cache.
  With two Send envelopes for the same new agent id in the queue and a factory that
  suspends, both delivery tasks find the cache empty: the factory is called twice for
  the one id and the second instance takes the place of the first. Run one after the
  other, the same two deliveries call it once.
\<close>

theorem overlapping_deliveries_call_factory_twice:
  "map_option (\<lambda>rt. count_list (trace rt) (FactoryCall echo_id)) (overlapping_deliveries race_runtime)
     = Some 2 \<and>
   count_list (trace (lifetime [ProcessNext, ProcessNext] race_runtime)) (FactoryCall echo_id) = 1"
  by (simp add: overlapping_deliveries_def race_runtime_def lifetime_def eval_defs
        get_agent_begin_def get_agent_resume_def)

section \<open>Registration with an expected class\<close>

definition other_agent :: "string Agent" where
  "other_agent = \<lparr>agent_class = ''OtherAgent'', on_message = (\<lambda>m ctx. Inr m)\<rparr>"

definition other_factory :: "AgentId \<Rightarrow> exn + string Agent" where
  "other_factory agent_id = Inr other_agent"

text \<open>
  C7, as the claim states it: \<^verbatim>\<open>register_factory\<close> raises when the factory makes an
  instance of another class than the expected one. It does not: with a factory that
  makes an \<open>OtherAgent\<close> and the expected class \<open>EchoAgent\<close>, the registration
  returns the type.
\<close>

theorem register_factory_mismatch_counterexample:
  "other_factory echo_id = Inr other_agent \<and> agent_class other_agent \<noteq> ''EchoAgent'' \<and>
   fst (register_factory ''echo'' other_factory ''EchoAgent'' empty_runtime) = Inr ''echo''"
  by (simp add: other_factory_def other_agent_def register_factory_def empty_runtime_def
        init_runtime_def)

text \<open>
  C7, amended. \<^verbatim>\<open>register_factory\<close> does not call the factory: for a type that is
  not registered yet it binds \<^verbatim>\<open>factory_wrapper\<close> and returns the type, whatever
  class the factory makes. The class is compared when the agent is first resolved:
  \<^verbatim>\<open>_get_agent\<close> for an id of that type calls the factory and raises
  \<^verbatim>\<open>ValueError("Factory registered using the wrong type.")\<close>, and caches nothing.
\<close>

theorem register_factory_class_check_deferred:
  assumes "ty \<notin> dom (agent_factories rt)"
    and "agent_factory agent_id = Inr agent_instance"
    and "agent_class agent_instance \<noteq> expected_class"
    and "type agent_id = ty"
    and "instantiated_agents rt agent_id = None"
  shows "register_factory ty agent_factory expected_class rt =
           (Inr ty, rt\<lparr>agent_factories :=
                         (agent_factories rt)(ty \<mapsto> Factory 0 (factory_wrapper agent_factory expected_class))\<rparr>) \<and>
         get_agent agent_id (snd (register_factory ty agent_factory expected_class rt)) =
           (Inl (ValueError ''Factory registered using the wrong type.''),
            log_event (FactoryCall agent_id) (snd (register_factory ty agent_factory expected_class rt)))"
  using assms
  by (simp add: register_factory_def get_agent_def invoke_agent_factory_def factory_wrapper_def)

theorem register_factory_class_check_deferred_witness:
  "fst (register_factory ''echo'' other_factory ''EchoAgent'' empty_runtime) = Inr ''echo'' \<and>
   fst (get_agent echo_id (snd (register_factory ''echo'' other_factory ''EchoAgent'' empty_runtime))) =
     Inl (ValueError ''Factory registered using the wrong type.'')"
proof -
  have h: "''echo'' \<notin> dom (agent_factories empty_runtime)"
    "other_factory echo_id = Inr other_agent"
    "agent_class other_agent \<noteq> ''EchoAgent''"
    "type echo_id = ''echo''"
    "instantiated_agents empty_runtime echo_id = None"
    by (simp_all add: empty_runtime_def init_runtime_def other_factory_def other_agent_def echo_id_def)
  note t = register_factory_class_check_deferred
      [of "''echo''" empty_runtime other_factory echo_id other_agent "''EchoAgent''", OF h]
  have a: "register_factory ''echo'' other_factory ''EchoAgent'' empty_runtime =
             (Inr ''echo'', empty_runtime\<lparr>agent_factories :=
                (agent_factories empty_runtime)
                  (''echo'' \<mapsto> Factory 0 (factory_wrapper other_factory ''EchoAgent''))\<rparr>)"
    using t by blast
  have b: "get_agent echo_id (snd (register_factory ''echo'' other_factory ''EchoAgent'' empty_runtime)) =
             (Inl (ValueError ''Factory registered using the wrong type.''),
              log_event (FactoryCall echo_id)
                (snd (register_factory ''echo'' other_factory ''EchoAgent'' empty_runtime)))"
    using t by blast
  show ?thesis
    unfolding b unfolding a by simp
qed

section \<open>Send and response\<close>

text \<open>What the primitive steps leave alone.\<close>

lemma log_event_fields [simp]:
  "futures (log_event e rt) = futures rt"
  "unfinished_tasks (log_event e rt) = unfinished_tasks rt"
  "is_shutdown (log_event e rt) = is_shutdown rt"
  "intervention_handlers (log_event e rt) = intervention_handlers rt"
  "run_context (log_event e rt) = run_context rt"
  "agent_factories (log_event e rt) = agent_factories rt"
  "instantiated_agents (log_event e rt) = instantiated_agents rt"
  "subscribed_recipients (log_event e rt) = subscribed_recipients rt"
  "tokens (log_event e rt) = tokens rt"
  "trace (log_event e rt) = trace rt @ [e]"
  by (simp_all add: log_event_def)

lemma get_agent_fields [simp]:
  "futures (snd (get_agent a rt)) = futures rt"
  "unfinished_tasks (snd (get_agent a rt)) = unfinished_tasks rt"
  "is_shutdown (snd (get_agent a rt)) = is_shutdown rt"
  "intervention_handlers (snd (get_agent a rt)) = intervention_handlers rt"
  "run_context (snd (get_agent a rt)) = run_context rt"
  "agent_factories (snd (get_agent a rt)) = agent_factories rt"
  "subscribed_recipients (snd (get_agent a rt)) = subscribed_recipients rt"
  "tokens (snd (get_agent a rt)) = tokens rt"
  by (simp_all add: get_agent_def invoke_agent_factory_def log_event_def
        split: option.splits sum.splits)

lemma get_agent_depends:
  "instantiated_agents rt' = instantiated_agents rt \<Longrightarrow> agent_factories rt' = agent_factories rt \<Longrightarrow>
   fst (get_agent a rt') = fst (get_agent a rt)"
  by (simp add: get_agent_def invoke_agent_factory_def split: option.splits sum.splits)

text \<open>A delivery that succeeds, as a composition of its steps.\<close>

lemma process_send_delivers:
  assumes "fst (get_agent recipient rt) = Inr agent"
    and "on_message agent m \<lparr>sender = s, topic_id = None, is_rpc = True,
           cancellation_token = tok, message_id = ''NOT_DEFINED_TODO_FIX''\<rparr> = Inr r"
    and "\<not> is_shutdown rt"
  shows "process_send m s recipient f tok rt =
           task_done (snd (put (ResponseMessageEnvelope r f recipient s)
             (log_event (OnMessage recipient m \<lparr>sender = s, topic_id = None, is_rpc = True,
                  cancellation_token = tok, message_id = ''NOT_DEFINED_TODO_FIX''\<rparr>)
                (snd (get_agent recipient rt)))))"
proof -
  obtain rtg where g: "get_agent recipient rt = (Inr agent, rtg)"
    using assms(1) by (cases "get_agent recipient rt") auto
  have "\<not> is_shutdown rtg"
    using get_agent_fields(3) [of recipient rt] g assms(3) by simp
  then show ?thesis
    using g assms(2) by (simp add: process_send_def send_to_agent_def and_then_def put_def)
qed

subsection \<open>Properties that the delivery steps keep\<close>

text \<open>
  \<open>step_stable P\<close>: the primitive steps of a delivery (logging, settling a future,
  \<^verbatim>\<open>task_done\<close>, \<^verbatim>\<open>put\<close>, \<^verbatim>\<open>_get_agent\<close>, taking an envelope from the queue) keep
  \<open>P\<close>. Such a property is kept by \<^verbatim>\<open>_process_next\<close> as a whole.
\<close>

definition holds :: "('m runtime \<Rightarrow> bool) \<Rightarrow> 'm runtime \<Rightarrow> bool" where
  "holds P rt = P rt"

definition step_stable :: "('m runtime \<Rightarrow> bool) \<Rightarrow> bool" where
  "step_stable P \<longleftrightarrow>
     (\<forall>rt. P rt \<longrightarrow>
        (\<forall>e. (\<forall>a. e \<noteq> FactoryCall a) \<longrightarrow> P (log_event e rt)) \<and>
        (\<forall>g e. P (snd (set_exception g e rt))) \<and>
        (\<forall>g v. P (snd (set_result g v rt))) \<and>
        P (snd (task_done rt)) \<and>
        (\<forall>env. P (snd (put env rt))) \<and>
        (\<forall>b. P (snd (get_agent b rt))) \<and>
        (\<forall>q. P (rt\<lparr>message_queue := q\<rparr>)))"

lemma holds_log_event [simp]:
  "step_stable P \<Longrightarrow> (\<And>a. e \<noteq> FactoryCall a) \<Longrightarrow> holds P rt \<Longrightarrow> holds P (log_event e rt)"
  by (simp add: step_stable_def holds_def)

lemma holds_set_exception [simp]:
  "step_stable P \<Longrightarrow> holds P rt \<Longrightarrow> holds P (snd (set_exception g e rt))"
  by (simp add: step_stable_def holds_def)

lemma holds_set_result [simp]:
  "step_stable P \<Longrightarrow> holds P rt \<Longrightarrow> holds P (snd (set_result g v rt))"
  by (simp add: step_stable_def holds_def)

lemma holds_task_done [simp]:
  "step_stable P \<Longrightarrow> holds P rt \<Longrightarrow> holds P (snd (task_done rt))"
  by (simp add: step_stable_def holds_def)

lemma holds_put [simp]:
  "step_stable P \<Longrightarrow> holds P rt \<Longrightarrow> holds P (snd (put env rt))"
  by (simp add: step_stable_def holds_def)

lemma holds_get_agent [simp]:
  "step_stable P \<Longrightarrow> holds P rt \<Longrightarrow> holds P (snd (get_agent b rt))"
  by (simp add: step_stable_def holds_def)

lemma holds_queue [simp]:
  "step_stable P \<Longrightarrow> holds P rt \<Longrightarrow> holds P (rt\<lparr>message_queue := q\<rparr>)"
  by (simp add: step_stable_def holds_def)

lemma holds_and_then [simp]:
  "holds P (snd r) \<Longrightarrow> (\<And>v s. holds P s \<Longrightarrow> holds P (snd (h v s))) \<Longrightarrow>
   holds P (snd (and_then r h))"
  by (cases r; cases "fst r") (auto simp: and_then_def)

lemma holds_process_send [simp]:
  "step_stable P \<Longrightarrow> holds P rt \<Longrightarrow> holds P (snd (process_send m s r f t rt))"
  by (simp add: process_send_def send_to_agent_def case_prod_beta Let_def split: sum.splits)

lemma holds_publish_recipients [simp]:
  "step_stable P \<Longrightarrow> holds P rt \<Longrightarrow> holds P (snd (publish_recipients rs s c acc rt))"
  by (induction rs arbitrary: acc rt) (simp_all split: option.splits)

lemma holds_gather [simp]:
  "step_stable P \<Longrightarrow> holds P rt \<Longrightarrow> holds P (snd (gather rs m rt))"
proof (induction rs arbitrary: rt)
  case Nil
  then show ?case by simp
next
  case (Cons x rs)
  obtain a ag c where x: "x = (a, ag, c)" by (cases x)
  show ?case
    unfolding x snd_gather_Cons using Cons.prems by (intro Cons.IH) simp_all
qed

lemma holds_process_publish [simp]:
  "step_stable P \<Longrightarrow> holds P rt \<Longrightarrow> holds P (snd (process_publish m t s tp i rt))"
  by (simp add: process_publish_def case_prod_beta split: sum.splits)

lemma holds_process_response [simp]:
  "step_stable P \<Longrightarrow> holds P rt \<Longrightarrow> holds P (snd (process_response m f rt))"
  by (simp add: process_response_def)

lemma holds_create_task [simp]:
  "step_stable P \<Longrightarrow> holds P (snd r) \<Longrightarrow> holds P (create_task r)"
  by (simp add: create_task_def case_prod_beta split: sum.splits)

lemma holds_send_interventions [simp]:
  "step_stable P \<Longrightarrow> holds P rt \<Longrightarrow> holds P (snd (send_interventions hs i m s r f em rt))"
  by (induction hs arbitrary: i em rt) (simp_all split: intervention.splits)

lemma holds_publish_interventions [simp]:
  "step_stable P \<Longrightarrow> holds P rt \<Longrightarrow> holds P (snd (publish_interventions hs i m s em rt))"
  by (induction hs arbitrary: i em rt) (simp_all split: intervention.splits)

lemma holds_response_interventions [simp]:
  "step_stable P \<Longrightarrow> holds P rt \<Longrightarrow> holds P (snd (response_interventions hs i m s r f em rt))"
  by (induction hs arbitrary: i em rt) (simp_all split: intervention.splits)

lemma holds_dispatch [simp]:
  "step_stable P \<Longrightarrow> holds P rt \<Longrightarrow> holds P (snd (dispatch env rt))"
  by (cases env) (simp_all split: option.splits)

lemma holds_process_next:
  assumes "step_stable P" and "holds P rt" and "process_next rt = Some (r, rt')"
  shows "holds P rt'"
proof (cases "message_queue rt")
  case Nil
  then show ?thesis using assms by (simp add: process_next_def split: if_splits)
next
  case (Cons env rest)
  have "holds P (snd (dispatch env (rt\<lparr>message_queue := rest\<rparr>)))"
    using assms(1,2) by simp
  then show ?thesis using assms(3) Cons by (auto simp: process_next_def)
qed

lemma holds_perform_process_next:
  "step_stable P \<Longrightarrow> holds P rt \<Longrightarrow> holds P (perform ProcessNext rt)"
  using holds_process_next [of P rt] by (auto split: option.splits)

text \<open>
  A property that every step of the dispatcher task keeps, the step that ends the task
  with an exception included.
\<close>

definition dispatcher_invariant :: "('m runtime \<Rightarrow> bool) \<Rightarrow> bool" where
  "dispatcher_invariant I \<longleftrightarrow>
     (\<forall>rt r rt'. I rt \<longrightarrow> process_next rt = Some (r, rt') \<longrightarrow>
        I (case r of Inl e \<Rightarrow> rt'\<lparr>run_context := Some (RunContext False (Some e))\<rparr> | Inr u \<Rightarrow> rt'))"

lemma invariant_step:
  "dispatcher_invariant I \<Longrightarrow> I rt \<Longrightarrow> process_next rt = Some (Inr u, rt') \<Longrightarrow> I rt'"
  "dispatcher_invariant I \<Longrightarrow> I rt \<Longrightarrow> process_next rt = Some (Inl e, rt') \<Longrightarrow>
   I (rt'\<lparr>run_context := Some (RunContext False (Some e))\<rparr>)"
  unfolding dispatcher_invariant_def by force+

lemma invariant_run_until:
  "dispatcher_invariant I \<Longrightarrow> I rt \<Longrightarrow> I (snd (run_until c rt))"
proof (induction c rt rule: run_until.induct)
  case (1 condition rt)
  show ?case
  proof (cases "condition rt \<or> run_context rt \<noteq> Some (RunContext False None) \<or> message_queue rt = []")
    case True
    then show ?thesis using "1.prems" by (subst run_until.simps) auto
  next
    case False
    show ?thesis
    proof (cases "process_next rt")
      case None
      then show ?thesis using False "1.prems" by (subst run_until.simps) simp
    next
      case (Some p)
      obtain r rt' where p: "p = (r, rt')" by (cases p)
      show ?thesis
      proof (cases r)
        case (Inl e)
        have "I (rt'\<lparr>run_context := Some (RunContext False (Some e))\<rparr>)"
          using invariant_step(2) [OF "1.prems"] Some p Inl by simp
        then show ?thesis
          using False Some p Inl "1.IH"(1) "1.prems"(1) by (subst run_until.simps) simp
      next
        case (Inr u)
        have "I rt'"
          using invariant_step(1) [OF "1.prems"] Some p Inr by simp
        then show ?thesis
          using False Some p Inr "1.IH"(2) "1.prems"(1) by (subst run_until.simps) simp
      qed
    qed
  qed
qed

lemma invariant_run_steps:
  "dispatcher_invariant I \<Longrightarrow> I rt \<Longrightarrow> I (run_steps n rt)"
proof (induction n arbitrary: rt)
  case 0
  then show ?case by simp
next
  case (Suc n)
  show ?case
  proof (cases "process_next rt")
    case None
    then show ?thesis using Suc.prems by simp
  next
    case (Some p)
    obtain r rt' where p: "p = (r, rt')" by (cases p)
    show ?thesis
    proof (cases r)
      case (Inl e)
      then show ?thesis
        using invariant_step(2) [OF Suc.prems] Some p Suc.prems by simp
    next
      case (Inr u)
      then show ?thesis
        using invariant_step(1) [OF Suc.prems] Some p Suc.prems Suc.IH by simp
    qed
  qed
qed

lemma invariant_check_condition:
  "dispatcher_invariant I \<Longrightarrow> I rt \<Longrightarrow> I (snd (check_condition c periods rt))"
  by (induction periods arbitrary: rt) (simp_all add: invariant_run_until invariant_run_steps)

lemma invariant_perform_process_next:
  "dispatcher_invariant I \<Longrightarrow> (\<And>rt rc. I (rt\<lparr>run_context := rc\<rparr>) = I rt) \<Longrightarrow> I rt \<Longrightarrow>
   I (perform ProcessNext rt)"
proof -
  assume inv: "dispatcher_invariant I" and rc: "\<And>rt rc. I (rt\<lparr>run_context := rc\<rparr>) = I rt"
    and a: "I rt"
  show ?thesis
  proof (cases "process_next rt")
    case None
    then show ?thesis using a by simp
  next
    case (Some p)
    obtain r rt' where p: "p = (r, rt')" by (cases p)
    show ?thesis
    proof (cases r)
      case (Inl e)
      then show ?thesis
        using invariant_step(2) [OF inv a, of e rt'] Some p rc by simp
    next
      case (Inr u)
      then show ?thesis
        using invariant_step(1) [OF inv a, of u rt'] Some p by simp
    qed
  qed
qed

lemma step_stable_invariant:
  assumes "step_stable P" and "\<And>rt rc. P rt \<Longrightarrow> P (rt\<lparr>run_context := rc\<rparr>)"
  shows "dispatcher_invariant P"
  unfolding dispatcher_invariant_def
proof (intro allI impI)
  fix rt r rt'
  assume a: "P rt" and b: "process_next rt = Some (r, rt')"
  have "P rt'"
    using holds_process_next [OF assms(1) _ b] a by (simp add: holds_def)
  then show "P (case r of Inl e \<Rightarrow> rt'\<lparr>run_context := Some (RunContext False (Some e))\<rparr> | Inr u \<Rightarrow> rt')"
    using assms(2) by (cases r) simp_all
qed

subsection \<open>What the steps do to futures and counters\<close>

lemma futures_set_exception [simp]:
  "futures (snd (set_exception g e rt)) f =
     (if g = f \<and> futures rt f = Pending then Failed e else futures rt f)"
  by (simp add: set_exception_def)

lemma futures_set_result [simp]:
  "futures (snd (set_result g v rt)) f =
     (if g = f \<and> futures rt f = Pending then Result v else futures rt f)"
  by (simp add: set_result_def)

lemma task_done_fields [simp]:
  "futures (snd (task_done rt)) = futures rt"
  "unfinished_tasks (snd (task_done rt)) = unfinished_tasks rt - 1"
  "is_shutdown (snd (task_done rt)) = is_shutdown rt"
  "intervention_handlers (snd (task_done rt)) = intervention_handlers rt"
  "next_future (snd (task_done rt)) = next_future rt"
  "tokens (snd (task_done rt)) = tokens rt"
  "agent_factories (snd (task_done rt)) = agent_factories rt"
  "instantiated_agents (snd (task_done rt)) = instantiated_agents rt"
  by (simp_all add: task_done_def log_event_def)

lemma put_fields [simp]:
  "futures (snd (put env rt)) = futures rt"
  "unfinished_tasks (snd (put env rt)) =
     (if is_shutdown rt then unfinished_tasks rt else Suc (unfinished_tasks rt))"
  "is_shutdown (snd (put env rt)) = is_shutdown rt"
  "intervention_handlers (snd (put env rt)) = intervention_handlers rt"
  "next_future (snd (put env rt)) = next_future rt"
  "tokens (snd (put env rt)) = tokens rt"
  "agent_factories (snd (put env rt)) = agent_factories rt"
  "instantiated_agents (snd (put env rt)) = instantiated_agents rt"
  by (simp_all add: put_def log_event_def)

lemma set_exception_fields [simp]:
  "unfinished_tasks (snd (set_exception g e rt)) = unfinished_tasks rt"
  "is_shutdown (snd (set_exception g e rt)) = is_shutdown rt"
  "intervention_handlers (snd (set_exception g e rt)) = intervention_handlers rt"
  "next_future (snd (set_exception g e rt)) = next_future rt"
  "tokens (snd (set_exception g e rt)) = tokens rt"
  "agent_factories (snd (set_exception g e rt)) = agent_factories rt"
  "instantiated_agents (snd (set_exception g e rt)) = instantiated_agents rt"
  by (simp_all add: set_exception_def)

lemma set_result_fields [simp]:
  "unfinished_tasks (snd (set_result g v rt)) = unfinished_tasks rt"
  "is_shutdown (snd (set_result g v rt)) = is_shutdown rt"
  "intervention_handlers (snd (set_result g v rt)) = intervention_handlers rt"
  "next_future (snd (set_result g v rt)) = next_future rt"
  "tokens (snd (set_result g v rt)) = tokens rt"
  "agent_factories (snd (set_result g v rt)) = agent_factories rt"
  "instantiated_agents (snd (set_result g v rt)) = instantiated_agents rt"
  by (simp_all add: set_result_def)

lemma more_fields [simp]:
  "next_future (log_event e rt) = next_future rt"
  "next_future (snd (get_agent a rt)) = next_future rt"
  by (simp_all add: log_event_def get_agent_def invoke_agent_factory_def
        split: option.splits sum.splits)

lemmas futures_and_then [simp] = snd_and_then [where P = futures]
lemmas unfinished_and_then [simp] = snd_and_then [where P = unfinished_tasks]

subsection \<open>A settled future is final\<close>

definition settled :: "nat \<Rightarrow> 'm future \<Rightarrow> 'm runtime \<Rightarrow> bool" where
  "settled f v rt \<longleftrightarrow> futures rt f = v \<and> v \<noteq> Pending \<and> f < next_future rt"

lemma settled_step_stable: "step_stable (settled f v)"
  by (auto simp: step_stable_def settled_def)

lemma settled_invariant: "dispatcher_invariant (settled f v)"
  by (rule step_stable_invariant [OF settled_step_stable]) (simp add: settled_def)

lemma settled_cancel_future: "settled f v rt \<Longrightarrow> settled f v (cancel_future g rt)"
  by (auto simp: settled_def cancel_future_def)

lemma settled_fold_cancel: "settled f v rt \<Longrightarrow> settled f v (fold cancel_future gs rt)"
  by (induction gs arbitrary: rt) (simp_all add: settled_cancel_future)

lemma settled_cancel: "settled f v rt \<Longrightarrow> settled f v (cancel t rt)"
proof -
  assume a: "settled f v rt"
  have "settled f v (rt\<lparr>tokens := ts\<rparr>)" for ts
    using a by (simp add: settled_def)
  then show ?thesis
    using a by (simp add: cancel_def settled_fold_cancel)
qed

lemma settled_allocate:
  "settled f v rt \<Longrightarrow> settled f v (snd (create_token rt))"
  "settled f v rt \<Longrightarrow> settled f v (snd (create_future rt))"
  "settled f v rt \<Longrightarrow> settled f v (link_future t g rt)"
  by (auto simp: settled_def create_token_def create_future_def link_future_def cancel_future_def)

lemma settled_send_message: "settled f v rt \<Longrightarrow> settled f v (snd (send_message m r s t rt))"
proof -
  assume a: "settled f v rt"
  define rt1 where "rt1 = (case t of None \<Rightarrow> snd (create_token rt) | Some t' \<Rightarrow> rt)"
  have 1: "settled f v rt1"
    using a by (cases t) (simp_all add: rt1_def settled_allocate)
  have 2: "holds (settled f v) (snd (create_future rt1))"
    using 1 by (simp add: holds_def settled_allocate)
  have 3: "holds (settled f v) (link_future t' g rt')" if "holds (settled f v) rt'" for t' g rt'
    using that by (simp add: holds_def settled_allocate)
  have "holds (settled f v) (snd (send_message m r s t rt))"
    using 2 3 settled_step_stable [of f v]
    by (cases t) (simp_all add: send_message_def rt1_def Let_def case_prod_beta)
  then show ?thesis by (simp add: holds_def)
qed

lemma settled_publish_message:
  "settled f v rt \<Longrightarrow> settled f v (snd (publish_message m tp s t i u rt))"
proof -
  assume a: "settled f v rt"
  have "holds (settled f v) (snd (create_token rt))" and "holds (settled f v) rt"
    using a by (simp_all add: holds_def settled_allocate)
  then have "holds (settled f v) (snd (publish_message m tp s t i u rt))"
    using settled_step_stable [of f v]
    by (cases t) (simp_all add: publish_message_def Let_def case_prod_beta)
  then show ?thesis by (simp add: holds_def)
qed

lemma settled_stop: "settled f v rt \<Longrightarrow> settled f v (snd (stop rt))"
  by (auto simp: settled_def stop_def run_context_stop_def and_then_def shutdown_immediate_def
        fresh_queue_def Let_def split: option.splits)

lemma settled_holds: "settled f v rt = holds (settled f v) rt"
  by (simp add: holds_def)


lemma settled_perform: "settled f v rt \<Longrightarrow> settled f v (perform act rt)"
proof -
  assume a: "settled f v rt"
  then have h: "holds (settled f v) rt"
    by (simp add: holds_def)
  note st = settled_step_stable [of f v]
  show ?thesis
  proof (cases act)
    case (Register ty fac)
    then show ?thesis using a by (simp add: register_def settled_def)
  next
    case (RegisterFactory ty fac cls)
    then show ?thesis using a by (simp add: register_factory_def settled_def)
  next
    case (GetAgent b)
    then show ?thesis using holds_get_agent [OF st h] by (simp add: holds_def)
  next
    case (SendMessage m r s t)
    then show ?thesis using a by (simp add: settled_send_message)
  next
    case (PublishMessage m tp s t i u)
    then show ?thesis using a by (simp add: settled_publish_message)
  next
    case CreateToken
    then show ?thesis using a by (simp add: settled_allocate)
  next
    case (Cancel t)
    then show ?thesis using a by (simp add: settled_cancel)
  next
    case ProcessNext
    then show ?thesis using holds_perform_process_next [OF st h] by (simp add: holds_def)
  next
    case Start
    then show ?thesis using a by (simp add: start_def settled_def)
  next
    case Stop
    then show ?thesis using a by (simp add: settled_stop)
  next
    case StopWhenIdle
    have "settled f v (snd (run_until (\<lambda>rt. unfinished_tasks rt = 0) rt))"
      using invariant_run_until [OF settled_invariant a] .
    then show ?thesis
      using StopWhenIdle a settled_stop [of f v "snd (run_until (\<lambda>rt. unfinished_tasks rt = 0) rt)"]
      by (simp add: stop_when_idle_def case_prod_beta split: bool.splits)
  next
    case (StopWhen c periods)
    have "settled f v (snd (check_condition c periods rt))"
      using invariant_check_condition [OF settled_invariant a] .
    then show ?thesis
      using StopWhen a settled_stop [of f v "snd (check_condition c periods rt)"]
      by (simp add: stop_when_def case_prod_beta split: bool.splits)
  qed
qed

lemma settled_lifetime: "settled f v rt \<Longrightarrow> settled f v (lifetime acts rt)"
  unfolding lifetime_def
  by (induction acts arbitrary: rt) (simp_all add: settled_perform)

subsection \<open>Envelopes of one call\<close>

text \<open>
  \<open>mentions f env\<close>: the envelope carries the future \<open>f\<close>. \<open>no_handlers\<close>: no
  intervention handler is configured (\<^verbatim>\<open>intervention_handlers\<close> is \<^verbatim>\<open>None\<close> or
  empty).
\<close>

fun mentions :: "nat \<Rightarrow> 'm envelope \<Rightarrow> bool" where
  "mentions f (SendMessageEnvelope m s r g t) = (g = f)"
| "mentions f (PublishMessageEnvelope m t s tp i) = False"
| "mentions f (ResponseMessageEnvelope m g s r) = (g = f)"

definition no_handlers :: "'m runtime \<Rightarrow> bool" where
  "no_handlers rt \<longleftrightarrow> intervention_handlers rt = None \<or> intervention_handlers rt = Some []"

lemma get_agent_depends_on:
  "instantiated_agents rt' a = instantiated_agents rt a \<Longrightarrow>
   (instantiated_agents rt a = None \<Longrightarrow> agent_factories rt' (type a) = agent_factories rt (type a)) \<Longrightarrow>
   fst (get_agent a rt') = fst (get_agent a rt)"
  by (simp add: get_agent_def invoke_agent_factory_def split: option.splits sum.splits)

lemma get_agent_resolution:
  assumes "fst (get_agent a rt) = Inr ag"
  shows "fst (get_agent a (snd (get_agent b rt))) = Inr ag"
proof (cases "a = b")
  case True
  have "instantiated_agents (snd (get_agent a rt)) a = Some ag"
    using assms
    by (auto simp: get_agent_def invoke_agent_factory_def split: option.splits sum.splits if_splits)
  then show ?thesis
    using True by (simp add: get_agent_cached)
next
  case False
  then show ?thesis
    using assms get_agent_other [of a b rt] get_agent_depends_on [of "snd (get_agent b rt)" a rt]
    by simp
qed

lemma resolution_fields [simp]:
  "fst (get_agent a (log_event e rt)) = fst (get_agent a rt)"
  "fst (get_agent a (snd (set_exception g x rt))) = fst (get_agent a rt)"
  "fst (get_agent a (snd (set_result g v rt))) = fst (get_agent a rt)"
  "fst (get_agent a (snd (task_done rt))) = fst (get_agent a rt)"
  "fst (get_agent a (snd (put env rt))) = fst (get_agent a rt)"
  "fst (get_agent a (rt\<lparr>message_queue := q\<rparr>)) = fst (get_agent a rt)"
  by (rule get_agent_depends_on; simp)+

text \<open>The fields that no dispatcher step changes.\<close>

definition same_frame :: "'m runtime \<Rightarrow> 'm runtime \<Rightarrow> bool" where
  "same_frame rt0 rt \<longleftrightarrow>
     intervention_handlers rt = intervention_handlers rt0 \<and> is_shutdown rt = is_shutdown rt0 \<and>
     run_context rt = run_context rt0 \<and> next_future rt = next_future rt0 \<and>
     tokens rt = tokens rt0 \<and> next_token rt = next_token rt0 \<and>
     agent_factories rt = agent_factories rt0 \<and>
     subscribed_recipients rt = subscribed_recipients rt0"

lemma same_frame_step_stable: "step_stable (same_frame rt0)"
  by (auto simp: step_stable_def same_frame_def set_exception_def set_result_def task_done_def
        put_def log_event_def get_agent_def invoke_agent_factory_def
        split: option.splits sum.splits)

lemma dispatch_frame: "same_frame rt (snd (dispatch env rt))"
  using holds_dispatch [OF same_frame_step_stable, of rt rt env]
  by (simp add: holds_def same_frame_def)

lemma dispatch_no_handlers:
  "no_handlers rt \<Longrightarrow>
   dispatch env rt =
     (Inr (), create_task (case env of
        SendMessageEnvelope m s r f t \<Rightarrow> process_send m s r f t rt
      | PublishMessageEnvelope m t s tp i \<Rightarrow> process_publish m t s tp i rt
      | ResponseMessageEnvelope m f s r \<Rightarrow> process_response m f rt))"
  by (cases env) (auto simp: no_handlers_def and_then_def)

subsection \<open>Delivering another envelope\<close>

lemma create_task_fields [simp]:
  "futures (create_task r) = futures (snd r)"
  "unfinished_tasks (create_task r) = unfinished_tasks (snd r)"
  by (simp_all add: create_task_def log_event_def case_prod_beta split: sum.splits)

lemma publish_recipients_fields [simp]:
  "futures (snd (publish_recipients rs s c acc rt)) = futures rt"
  "unfinished_tasks (snd (publish_recipients rs s c acc rt)) = unfinished_tasks rt"
  by (induction rs arbitrary: acc rt; simp split: option.splits)+

lemma gather_fields [simp]:
  "futures (snd (gather rs m rt)) = futures rt"
  "unfinished_tasks (snd (gather rs m rt)) = unfinished_tasks rt"
proof (induction rs arbitrary: rt)
  case Nil
  { case 1 show ?case by simp }
  { case 2 show ?case by simp }
next
  case (Cons x rs)
  obtain a ag c where x: "x = (a, ag, c)" by (cases x)
  { case 1 show ?case unfolding x snd_gather_Cons by (simp add: Cons.IH) }
  { case 2 show ?case unfolding x snd_gather_Cons by (simp add: Cons.IH) }
qed

lemma process_publish_fields [simp]:
  "futures (snd (process_publish m t s tp i rt)) = futures rt"
  "unfinished_tasks (snd (process_publish m t s tp i rt)) = unfinished_tasks rt - 1"
  by (simp_all add: process_publish_def case_prod_beta split: sum.splits)

lemma process_response_fields:
  "g \<noteq> f \<Longrightarrow> futures (snd (process_response m g rt)) f = futures rt f"
  "unfinished_tasks (snd (process_response m g rt)) = unfinished_tasks rt - 1"
  by (simp_all add: process_response_def and_then_def case_prod_beta task_done_def
        set_result_def log_event_def split: sum.splits)

lemma process_send_futures:
  "g \<noteq> f \<Longrightarrow> futures (snd (process_send m s r g t rt)) f = futures rt f"
  by (simp add: process_send_def send_to_agent_def and_then_def case_prod_beta Let_def
        split: sum.splits)

lemma process_send_counts:
  "length (message_queue rt) < unfinished_tasks rt \<Longrightarrow>
   length (message_queue (snd (process_send m s r g t rt)))
     \<le> unfinished_tasks (snd (process_send m s r g t rt))"
  by (auto simp: process_send_def send_to_agent_def and_then_def case_prod_beta Let_def mq_put
        split: sum.splits)

lemma process_send_filter:
  "g \<noteq> f \<Longrightarrow>
   filter (mentions f) (message_queue (snd (process_send m s r g t rt))) =
   filter (mentions f) (message_queue rt)"
  using mq_process_send [of m s r g t rt] by auto

lemma dispatch_other:
  assumes "no_handlers rt" and "\<not> mentions f env"
  shows "futures (snd (dispatch env rt)) f = futures rt f"
    and "filter (mentions f) (message_queue (snd (dispatch env rt))) =
         filter (mentions f) (message_queue rt)"
  unfolding dispatch_no_handlers [OF assms(1)] using assms(2)
  by (cases env; simp add: process_send_futures process_send_filter process_response_fields)+

lemma dispatch_counts:
  assumes "no_handlers rt" and "length (message_queue rt) < unfinished_tasks rt"
  shows "length (message_queue (snd (dispatch env rt))) \<le> unfinished_tasks (snd (dispatch env rt))"
  unfolding dispatch_no_handlers [OF assms(1)] using assms(2)
  by (cases env; simp add: process_send_counts process_response_fields)

lemma dispatch_queue:
  assumes "no_handlers rt"
  shows "message_queue (snd (dispatch env rt)) = message_queue rt \<or>
         (\<exists>m s r g t v. env = SendMessageEnvelope m s r g t \<and>
            message_queue (snd (dispatch env rt)) = message_queue rt @ [ResponseMessageEnvelope v g r s])"
proof (cases env)
  case (SendMessageEnvelope m s r g t)
  then show ?thesis
    unfolding dispatch_no_handlers [OF assms]
    using mq_process_send [of m s r g t rt] by auto
qed (simp_all add: dispatch_no_handlers [OF assms] del: dispatch.simps)

subsection \<open>The states of a runtime without intervention handlers\<close>

text \<open>
  What holds in every state such a runtime reaches: the queue is open, the dispatcher
  task has not died, every queued envelope is counted as unfinished, and the futures
  that envelopes and cancellation tokens refer to have been created.
\<close>

definition sound :: "'m runtime \<Rightarrow> bool" where
  "sound rt \<longleftrightarrow>
     no_handlers rt \<and> \<not> is_shutdown rt \<and>
     (\<forall>rc. run_context rt = Some rc \<longrightarrow> run_task rc = None) \<and>
     length (message_queue rt) \<le> unfinished_tasks rt \<and>
     (\<forall>env\<in>set (message_queue rt). \<forall>g. mentions g env \<longrightarrow> g < next_future rt) \<and>
     (\<forall>t. \<forall>g\<in>set (callbacks (tokens rt t)). g < next_future rt)"

lemma sound_init: "hs = None \<or> hs = Some [] \<Longrightarrow> sound (init_runtime hs subscriptions)"
  by (auto simp: sound_def no_handlers_def init_runtime_def)

lemma sound_dispatch:
  assumes "sound rt" and "message_queue rt = env # rest"
  shows "sound (snd (dispatch env (rt\<lparr>message_queue := rest\<rparr>)))"
proof -
  define rt0 where "rt0 = rt\<lparr>message_queue := rest\<rparr>"
  define rt' where "rt' = snd (dispatch env rt0)"
  have nh: "no_handlers rt0"
    using assms(1) by (simp add: sound_def no_handlers_def rt0_def)
  have fr: "same_frame rt0 rt'"
    unfolding rt'_def by (rule dispatch_frame)
  have cnt: "length (message_queue rt') \<le> unfinished_tasks rt'"
    unfolding rt'_def using assms by (intro dispatch_counts [OF nh]) (simp add: sound_def rt0_def)
  have "message_queue rt' = rest \<or>
        (\<exists>m s r g t v. env = SendMessageEnvelope m s r g t \<and>
           message_queue rt' = rest @ [ResponseMessageEnvelope v g r s])"
    using dispatch_queue [OF nh, of env] unfolding rt'_def rt0_def by simp
  then have q: "\<forall>e\<in>set (message_queue rt'). \<forall>g. mentions g e \<longrightarrow> g < next_future rt"
    using assms by (auto simp: sound_def)
  show ?thesis
    using fr cnt q assms(1)
    unfolding rt'_def [symmetric] rt0_def [symmetric]
    by (simp add: sound_def same_frame_def no_handlers_def rt0_def)
qed

lemma sound_process_next:
  assumes "sound rt" and "process_next rt = Some (x, rt')"
  shows "x = Inr () \<and> sound rt'"
proof (cases "message_queue rt")
  case Nil
  then show ?thesis using assms by (simp add: process_next_def sound_def)
next
  case (Cons env rest)
  have nh: "no_handlers (rt\<lparr>message_queue := rest\<rparr>)"
    using assms(1) by (simp add: sound_def no_handlers_def)
  have "fst (dispatch env (rt\<lparr>message_queue := rest\<rparr>)) = Inr ()"
    by (simp add: dispatch_no_handlers [OF nh] del: dispatch.simps)
  then show ?thesis
    using assms(2) Cons sound_dispatch [OF assms(1) Cons] by (auto simp: process_next_def)
qed

lemma sound_run_context:
  "sound rt \<Longrightarrow> run_task rc = None \<Longrightarrow> sound (rt\<lparr>run_context := Some rc\<rparr>)"
  "sound rt \<Longrightarrow> sound (rt\<lparr>run_context := None\<rparr>)"
  by (auto simp: sound_def no_handlers_def)

lemma sound_invariant: "dispatcher_invariant sound"
  unfolding dispatcher_invariant_def using sound_process_next by fastforce


lemma cancel_future_only_futures: "\<exists>fs. cancel_future g rt = rt\<lparr>futures := fs\<rparr>"
proof (cases "futures rt g = Pending")
  case True
  then show ?thesis by (auto simp: cancel_future_def)
next
  case False
  have "rt = rt\<lparr>futures := futures rt\<rparr>" by simp
  then show ?thesis using False unfolding cancel_future_def by (simp only: if_False) blast
qed

lemma fold_cancel_future_only_futures: "\<exists>fs. fold cancel_future gs rt = rt\<lparr>futures := fs\<rparr>"
proof (induction gs arbitrary: rt)
  case Nil
  have "rt = rt\<lparr>futures := futures rt\<rparr>" by simp
  then show ?case unfolding fold_simps by blast
next
  case (Cons g gs)
  obtain fs where 1: "cancel_future g rt = rt\<lparr>futures := fs\<rparr>"
    using cancel_future_only_futures by blast
  obtain fs' where 2: "fold cancel_future gs (rt\<lparr>futures := fs\<rparr>) = rt\<lparr>futures := fs, futures := fs'\<rparr>"
    using Cons [of "rt\<lparr>futures := fs\<rparr>"] by blast
  show ?case using 1 2 by auto
qed

lemma sound_futures [simp]: "sound (rt\<lparr>futures := fs\<rparr>) = sound rt"
  by (simp add: sound_def no_handlers_def)

lemma sound_cancel: "sound rt \<Longrightarrow> sound (cancel t rt)"
proof -
  assume a: "sound rt"
  define rt1 where "rt1 = rt\<lparr>tokens := (tokens rt)(t := (tokens rt t)\<lparr>is_cancelled := True\<rparr>)\<rparr>"
  have 1: "sound rt1"
    using a by (auto simp: sound_def no_handlers_def rt1_def)
  obtain fs where "fold cancel_future (callbacks (tokens rt t)) rt1 = rt1\<lparr>futures := fs\<rparr>"
    using fold_cancel_future_only_futures by blast
  then show ?thesis
    using a 1 by (simp add: cancel_def rt1_def [symmetric])
qed

lemma sound_link_future:
  "sound rt \<Longrightarrow> g < next_future rt \<Longrightarrow> sound (link_future t g rt)"
proof (cases "is_cancelled (tokens rt t)")
  case True
  assume "sound rt"
  then show ?thesis
    using True cancel_future_only_futures [of g rt] by (auto simp: link_future_def)
next
  case False
  assume "sound rt" "g < next_future rt"
  then show ?thesis
    using False by (auto simp: link_future_def sound_def no_handlers_def)
qed

lemma sound_create_token: "sound rt \<Longrightarrow> sound (snd (create_token rt))"
  by (auto simp: sound_def no_handlers_def create_token_def)

lemma sound_put:
  "sound rt \<Longrightarrow> (\<And>g. mentions g env \<Longrightarrow> g < next_future rt) \<Longrightarrow> sound (snd (put env rt))"
  by (auto simp: sound_def no_handlers_def put_def log_event_def)

lemma sound_send_message: "sound rt \<Longrightarrow> sound (snd (send_message m r s t rt))"
proof -
  assume a: "sound rt"
  define rt1 where "rt1 = (case t of None \<Rightarrow> snd (create_token rt) | Some t' \<Rightarrow> rt)"
  define tok where "tok = (case t of None \<Rightarrow> next_token rt | Some t' \<Rightarrow> t')"
  define f where "f = next_future rt1"
  define rt2 where "rt2 = snd (create_future rt1)"
  define rt3 where "rt3 = (if type r \<notin> dom (agent_factories rt2)
                 then snd (set_exception f (Exception ''Recipient not found'') rt2) else rt2)"
  define rt4 where "rt4 = snd (put (SendMessageEnvelope m s r f tok) rt3)"
  have s1: "sound rt1"
    using a by (cases t) (simp_all add: rt1_def sound_create_token)
  have s2: "sound rt2" and n2: "next_future rt2 = Suc f"
    using s1 by (auto simp: rt2_def f_def create_future_def sound_def no_handlers_def less_Suc_eq)
  have s3: "sound rt3" and n3: "next_future rt3 = Suc f"
    using s2 n2 by (auto simp: rt3_def set_exception_def)
  have s4: "sound rt4" and n4: "next_future rt4 = Suc f"
    using s3 n3 by (auto simp: rt4_def intro!: sound_put)
  have p: "put (SendMessageEnvelope m s r f tok) rt3 = (Inr (), rt4)"
    using s3 by (simp add: rt4_def put_def sound_def)
  have "send_message m r s t rt =
          and_then (put (SendMessageEnvelope m s r f tok) rt3)
            (\<lambda>_ rt4. (Inr f, link_future tok f rt4))"
    by (cases t)
       (simp_all add: send_message_def Let_def case_prod_beta rt1_def tok_def f_def rt2_def
          rt3_def create_token_def create_future_def)
  then have "snd (send_message m r s t rt) = link_future tok f rt4"
    by (simp add: p and_then_def)
  then show ?thesis
    using s4 n4 by (simp add: sound_link_future)
qed

lemma sound_publish_message: "sound rt \<Longrightarrow> sound (snd (publish_message m tp s t i u rt))"
  by (cases t)
     (auto simp: publish_message_def Let_def case_prod_beta intro!: sound_put sound_create_token)

lemma sound_get_agent: "sound rt \<Longrightarrow> sound (snd (get_agent a rt))"
  by (simp add: sound_def no_handlers_def)

lemma sound_stop: "sound rt \<Longrightarrow> sound (snd (stop rt))"
  by (auto simp: sound_def no_handlers_def stop_def run_context_stop_def and_then_def
        shutdown_immediate_def fresh_queue_def Let_def split: option.splits)

lemma sound_perform: "sound rt \<Longrightarrow> sound (perform act rt)"
proof -
  assume a: "sound rt"
  show ?thesis
  proof (cases act)
    case (Register ty fac)
    then show ?thesis using a by (simp add: register_def sound_def no_handlers_def)
  next
    case (RegisterFactory ty fac cls)
    then show ?thesis using a by (simp add: register_factory_def sound_def no_handlers_def)
  next
    case (GetAgent b)
    then show ?thesis using a by (simp add: sound_get_agent)
  next
    case (SendMessage m r s t)
    then show ?thesis using a by (simp add: sound_send_message)
  next
    case (PublishMessage m tp s t i u)
    then show ?thesis using a by (simp add: sound_publish_message)
  next
    case CreateToken
    then show ?thesis using a by (simp add: sound_create_token)
  next
    case (Cancel t)
    then show ?thesis using a by (simp add: sound_cancel)
  next
    case ProcessNext
    then show ?thesis using a sound_process_next [OF a] by (auto split: option.splits)
  next
    case Start
    then show ?thesis using a by (simp add: start_def sound_run_context)
  next
    case Stop
    then show ?thesis using a by (simp add: sound_stop)
  next
    case StopWhenIdle
    have "sound (snd (run_until (\<lambda>rt. unfinished_tasks rt = 0) rt))"
      using invariant_run_until [OF sound_invariant a] .
    then show ?thesis
      using StopWhenIdle a sound_stop [of "snd (run_until (\<lambda>rt. unfinished_tasks rt = 0) rt)"]
      by (simp add: stop_when_idle_def case_prod_beta split: bool.splits)
  next
    case (StopWhen c periods)
    have "sound (snd (check_condition c periods rt))"
      using invariant_check_condition [OF sound_invariant a] .
    then show ?thesis
      using StopWhen a sound_stop [of "snd (check_condition c periods rt)"]
      by (simp add: stop_when_def case_prod_beta split: bool.splits)
  qed
qed

lemma sound_lifetime: "sound rt \<Longrightarrow> sound (lifetime acts rt)"
  unfolding lifetime_def
  by (induction acts arbitrary: rt) (simp_all add: sound_perform)

subsection \<open>One call from \<^verbatim>\<open>send_message\<close> to its result\<close>

text \<open>
  The call that created future \<open>f\<close> with token \<open>tok\<close>: its Send envelope is queued, or
  its Response envelope carrying \<open>r\<close> is queued, or \<open>f\<close> holds \<open>r\<close>. Until then \<open>f\<close>
  is pending and no other envelope carries it.
\<close>

definition tracked :: "nat \<Rightarrow> nat \<Rightarrow> AgentId \<Rightarrow> 'm Agent \<Rightarrow> 'm runtime \<Rightarrow> bool" where
  "tracked f tok recipient agent rt \<longleftrightarrow>
     f < next_future rt \<and> (\<forall>t. f \<in> set (callbacks (tokens rt t)) \<longrightarrow> t = tok) \<and>
     fst (get_agent recipient rt) = Inr agent"

lemma tracked_step_stable: "step_stable (tracked f tok recipient agent)"
  by (simp add: step_stable_def tracked_def get_agent_resolution)

definition awaiting :: "nat \<Rightarrow> 'm envelope \<Rightarrow> 'm runtime \<Rightarrow> bool" where
  "awaiting f env rt \<longleftrightarrow> filter (mentions f) (message_queue rt) = [env] \<and> futures rt f = Pending"

definition reply_pending ::
  "'m \<Rightarrow> AgentId option \<Rightarrow> AgentId \<Rightarrow> nat \<Rightarrow> nat \<Rightarrow> 'm Agent \<Rightarrow> 'm \<Rightarrow> 'm runtime \<Rightarrow> bool" where
  "reply_pending m s recipient f tok agent r rt \<longleftrightarrow>
     sound rt \<and> tracked f tok recipient agent rt \<and>
     (awaiting f (SendMessageEnvelope m s recipient f tok) rt \<or>
      awaiting f (ResponseMessageEnvelope r f recipient s) rt \<or>
      futures rt f = Result r)"

lemma reply_pending_dispatch:
  assumes rp: "reply_pending m s recipient f tok agent r rt"
    and q: "message_queue rt = env # rest"
    and replies: "on_message agent m \<lparr>sender = s, topic_id = None, is_rpc = True,
           cancellation_token = tok, message_id = ''NOT_DEFINED_TODO_FIX''\<rparr> = Inr r"
  shows "reply_pending m s recipient f tok agent r (snd (dispatch env (rt\<lparr>message_queue := rest\<rparr>)))"
proof -
  define rt0 where "rt0 = rt\<lparr>message_queue := rest\<rparr>"
  define rt' where "rt' = snd (dispatch env rt0)"
  have so: "sound rt" and tr: "tracked f tok recipient agent rt"
    using rp by (simp_all add: reply_pending_def)
  have nh: "no_handlers rt0" and open0: "\<not> is_shutdown rt0"
    and cnt0: "0 < unfinished_tasks rt0" and f0: "futures rt0 = futures rt"
    and res0: "fst (get_agent recipient rt0) = Inr agent"
    using so q tr by (simp_all add: sound_def no_handlers_def rt0_def tracked_def)
  have s': "sound rt'"
    unfolding rt'_def rt0_def by (rule sound_dispatch [OF so q])
  have "holds (tracked f tok recipient agent) rt0"
    using tr tracked_step_stable [of f tok recipient agent]
    by (simp add: holds_def step_stable_def rt0_def)
  then have t': "tracked f tok recipient agent rt'"
    using holds_dispatch [OF tracked_step_stable, of f tok recipient agent rt0 env]
    by (simp add: holds_def rt'_def)
  have done_case: "futures rt' f = Result r" if "futures rt f = Result r"
  proof -
    have "holds (settled f (Result r)) rt0"
      using that tr by (simp add: holds_def settled_def rt0_def tracked_def)
    then show ?thesis
      using holds_dispatch [OF settled_step_stable, of f "Result r" rt0 env]
      by (simp add: holds_def rt'_def settled_def)
  qed
  have other: "awaiting f e rt'" if "awaiting f e rt" and "\<not> mentions f env" for e
    using that dispatch_other [OF nh that(2)] q
    by (simp add: awaiting_def rt'_def [symmetric]) (simp add: rt0_def)
  have send_case: "awaiting f (ResponseMessageEnvelope r f recipient s) rt'"
    if w: "awaiting f (SendMessageEnvelope m s recipient f tok) rt" and me: "mentions f env"
  proof -
    have e: "env = SendMessageEnvelope m s recipient f tok" and fr: "filter (mentions f) rest = []"
      using w me q by (simp_all add: awaiting_def)
    define X where "X = snd (put (ResponseMessageEnvelope r f recipient s)
             (log_event (OnMessage recipient m \<lparr>sender = s, topic_id = None, is_rpc = True,
                  cancellation_token = tok, message_id = ''NOT_DEFINED_TODO_FIX''\<rparr>)
                (snd (get_agent recipient rt0))))"
    have ps: "process_send m s recipient f tok rt0 = task_done X"
      unfolding X_def by (rule process_send_delivers [OF res0 replies open0])
    have "0 < unfinished_tasks X"
      using open0 by (simp add: X_def)
    then have "fst (task_done X) = Inr ()"
      by (simp add: task_done_def)
    then have "rt' = snd (task_done X)"
      unfolding rt'_def dispatch_no_handlers [OF nh] e
      by (simp add: ps create_task_def case_prod_beta)
    moreover have "message_queue X = rest @ [ResponseMessageEnvelope r f recipient s]"
      and "futures X f = Pending"
      using w open0 by (simp_all add: X_def mq_put f0 awaiting_def) (simp add: rt0_def)
    ultimately show ?thesis
      using fr by (simp add: awaiting_def)
  qed
  have response_case: "futures rt' f = Result r"
    if w: "awaiting f (ResponseMessageEnvelope r f recipient s) rt" and me: "mentions f env"
  proof -
    have e: "env = ResponseMessageEnvelope r f recipient s"
      using w me q by (simp_all add: awaiting_def)
    have "futures rt0 f = Pending"
      using w by (simp add: f0 awaiting_def)
    then show ?thesis
      unfolding rt'_def dispatch_no_handlers [OF nh] e using cnt0
      by (simp add: process_response_def create_task_def task_done_def and_then_def
            cancelled_def set_result_def)
  qed
  show ?thesis
    using rp s' t' done_case other send_case response_case
    unfolding rt'_def [symmetric] rt0_def [symmetric] reply_pending_def
    by (cases "mentions f env") auto
qed


lemma reply_pending_invariant:
  assumes "on_message agent m \<lparr>sender = s, topic_id = None, is_rpc = True,
           cancellation_token = tok, message_id = ''NOT_DEFINED_TODO_FIX''\<rparr> = Inr r"
  shows "dispatcher_invariant (reply_pending m s recipient f tok agent r)"
  unfolding dispatcher_invariant_def
proof (intro allI impI)
  fix rt x rt'
  assume rp: "reply_pending m s recipient f tok agent r rt" and pn: "process_next rt = Some (x, rt')"
  have so: "sound rt"
    using rp by (simp add: reply_pending_def)
  have x: "x = Inr ()"
    using sound_process_next [OF so pn] by simp
  obtain env rest where q: "message_queue rt = env # rest"
    using pn so by (cases "message_queue rt") (auto simp: process_next_def sound_def)
  have "rt' = snd (dispatch env (rt\<lparr>message_queue := rest\<rparr>))"
    using pn q by (auto simp: process_next_def)
  then show "reply_pending m s recipient f tok agent r
          (case x of Inl e \<Rightarrow> rt'\<lparr>run_context := Some (RunContext False (Some e))\<rparr> | Inr u \<Rightarrow> rt')"
    using reply_pending_dispatch [OF rp q assms] x by simp
qed

text \<open>The other calls of the interface leave the call alone.\<close>

lemma resolution_registered:
  "fst (get_agent a rt) = Inr ag \<Longrightarrow>
   instantiated_agents rt a \<noteq> None \<or> type a \<in> dom (agent_factories rt)"
  by (auto simp: get_agent_def split: option.splits)

lemma tracked_register:
  assumes "tracked f tok recipient agent rt"
  shows "tracked f tok recipient agent (snd (register ty fac rt))"
    and "tracked f tok recipient agent (snd (register_factory ty fac' cls rt))"
proof -
  have res: "fst (get_agent recipient rt) = Inr agent"
    using assms by (simp add: tracked_def)
  have "fst (get_agent recipient (snd (register ty fac rt))) = fst (get_agent recipient rt)"
    using resolution_registered [OF res]
    by (intro get_agent_depends_on) (auto simp: register_def)
  then show "tracked f tok recipient agent (snd (register ty fac rt))"
    using assms by (simp add: tracked_def register_def)
  have "fst (get_agent recipient (snd (register_factory ty fac' cls rt))) = fst (get_agent recipient rt)"
    using resolution_registered [OF res]
    by (intro get_agent_depends_on) (auto simp: register_factory_def)
  then show "tracked f tok recipient agent (snd (register_factory ty fac' cls rt))"
    using assms by (simp add: tracked_def register_factory_def)
qed

lemma awaiting_fields:
  "message_queue rt' = message_queue rt \<Longrightarrow> futures rt' f = futures rt f \<Longrightarrow>
   awaiting f env rt' = awaiting f env rt"
  by (simp add: awaiting_def)

definition reply_state :: "'m \<Rightarrow> AgentId option \<Rightarrow> AgentId \<Rightarrow> nat \<Rightarrow> nat \<Rightarrow> 'm \<Rightarrow> 'm runtime \<Rightarrow> bool" where
  "reply_state m s recipient f tok r rt \<longleftrightarrow>
     awaiting f (SendMessageEnvelope m s recipient f tok) rt \<or>
     awaiting f (ResponseMessageEnvelope r f recipient s) rt \<or>
     futures rt f = Result r"

lemma reply_state_fields:
  "message_queue rt' = message_queue rt \<Longrightarrow> futures rt' f = futures rt f \<Longrightarrow>
   reply_state m s recipient f tok r rt' = reply_state m s recipient f tok r rt"
  by (simp add: reply_state_def awaiting_def)

lemma reply_state_put:
  "\<not> mentions f env \<Longrightarrow>
   reply_state m s recipient f tok r (snd (put env rt)) = reply_state m s recipient f tok r rt"
  by (simp add: reply_state_def awaiting_def mq_put)

lemma reply_pending_alt:
  "reply_pending m s recipient f tok agent r rt \<longleftrightarrow>
     sound rt \<and> tracked f tok recipient agent rt \<and> reply_state m s recipient f tok r rt"
  by (simp add: reply_pending_def reply_state_def)

lemma fold_cancel_future_other:
  "f \<notin> set gs \<Longrightarrow> futures (fold cancel_future gs rt) f = futures rt f"
  by (induction gs arbitrary: rt) (auto simp: cancel_future_def)

lemma fold_cancel_future_fields [simp]:
  "message_queue (fold cancel_future gs rt) = message_queue rt"
  "next_future (fold cancel_future gs rt) = next_future rt"
  "tokens (fold cancel_future gs rt) = tokens rt"
  "next_token (fold cancel_future gs rt) = next_token rt"
  "instantiated_agents (fold cancel_future gs rt) = instantiated_agents rt"
  "agent_factories (fold cancel_future gs rt) = agent_factories rt"
  "trace (fold cancel_future gs rt) = trace rt"
  using fold_cancel_future_only_futures [of gs rt] by auto

lemma tracked_depends:
  "next_future rt' = next_future rt \<Longrightarrow>
   (\<And>t. set (callbacks (tokens rt' t)) \<subseteq> set (callbacks (tokens rt t))) \<Longrightarrow>
   instantiated_agents rt' = instantiated_agents rt \<Longrightarrow>
   agent_factories rt' = agent_factories rt \<Longrightarrow>
   tracked f tok recipient agent rt \<Longrightarrow> tracked f tok recipient agent rt'"
  using get_agent_depends_on [of rt' recipient rt] by (auto simp: tracked_def)

lemma reply_pending_cancel:
  assumes "reply_pending m s recipient f tok agent r rt" and "t \<noteq> tok"
  shows "reply_pending m s recipient f tok agent r (cancel t rt)"
proof -
  have tr: "tracked f tok recipient agent rt"
    and st: "reply_state m s recipient f tok r rt" and so: "sound rt"
    using assms(1) by (simp_all add: reply_pending_alt)
  have nf: "f \<notin> set (callbacks (tokens rt t))"
    using tr assms(2) by (auto simp: tracked_def)
  have "tracked f tok recipient agent (cancel t rt)"
    by (rule tracked_depends [OF _ _ _ _ tr]) (auto simp: cancel_def)
  moreover have "reply_state m s recipient f tok r (cancel t rt)"
    using st nf by (subst reply_state_fields [of _ rt]) (simp_all add: cancel_def fold_cancel_future_other)
  ultimately show ?thesis
    using so by (simp add: reply_pending_alt sound_cancel)
qed


lemmas send_message_defs = send_message_def create_token_def create_future_def put_def
  and_then_def link_future_def cancel_future_def set_exception_def log_event_def Let_def

lemma send_message_fields:
  assumes "\<not> is_shutdown rt"
  shows "fst (send_message m r s t rt) = Inr (next_future rt)"
    and "message_queue (snd (send_message m r s t rt)) =
           message_queue rt @ [SendMessageEnvelope m s r (next_future rt)
                                (case t of None \<Rightarrow> next_token rt | Some t' \<Rightarrow> t')]"
    and "next_future (snd (send_message m r s t rt)) = Suc (next_future rt)"
    and "instantiated_agents (snd (send_message m r s t rt)) = instantiated_agents rt"
    and "agent_factories (snd (send_message m r s t rt)) = agent_factories rt"
    and "g \<noteq> next_future rt \<Longrightarrow> futures (snd (send_message m r s t rt)) g = futures rt g"
  using assms by (cases t; simp add: send_message_defs; fail)+

lemma send_message_callbacks:
  assumes "\<not> is_shutdown rt"
  shows "set (callbacks (tokens (snd (send_message m r s t rt)) t'))
           \<subseteq> set (callbacks (tokens rt t')) \<union>
              (if t' = (case t of None \<Rightarrow> next_token rt | Some t' \<Rightarrow> t') then {next_future rt} else {})"
  using assms by (cases t) (auto simp: send_message_defs)


lemma send_message_pending:
  assumes "\<not> is_shutdown rt" and "type r \<in> dom (agent_factories rt)"
    and "\<And>t'. t = Some t' \<Longrightarrow> \<not> is_cancelled (tokens rt t')"
  shows "futures (snd (send_message m r s t rt)) (next_future rt) = Pending"
    and "next_future rt \<in> set (callbacks (tokens (snd (send_message m r s t rt))
                                   (case t of None \<Rightarrow> next_token rt | Some t' \<Rightarrow> t')))"
    and "\<not> is_cancelled (tokens (snd (send_message m r s t rt))
                           (case t of None \<Rightarrow> next_token rt | Some t' \<Rightarrow> t'))"
  using assms by (cases t; auto simp: send_message_defs; fail)+

lemma publish_message_fields:
  assumes "\<not> is_shutdown rt"
  shows "message_queue (snd (publish_message m tp s t i u rt)) =
           message_queue rt @ [PublishMessageEnvelope m (case t of None \<Rightarrow> next_token rt | Some t' \<Rightarrow> t')
                                s tp (case i of None \<Rightarrow> u | Some i' \<Rightarrow> i')]"
    and "next_future (snd (publish_message m tp s t i u rt)) = next_future rt"
    and "instantiated_agents (snd (publish_message m tp s t i u rt)) = instantiated_agents rt"
    and "agent_factories (snd (publish_message m tp s t i u rt)) = agent_factories rt"
    and "futures (snd (publish_message m tp s t i u rt)) = futures rt"
    and "set (callbacks (tokens (snd (publish_message m tp s t i u rt)) t'))
           \<subseteq> set (callbacks (tokens rt t'))"
  using assms
  by (cases t; auto simp: publish_message_def create_token_def put_def log_event_def Let_def; fail)+

lemma reply_pending_send_message:
  assumes "reply_pending m s recipient f tok agent r rt"
  shows "reply_pending m s recipient f tok agent r (snd (send_message m' r' s' t' rt))"
proof -
  have tr: "tracked f tok recipient agent rt"
    and st: "reply_state m s recipient f tok r rt" and so: "sound rt"
    using assms(1) by (simp_all add: reply_pending_alt)
  have op: "\<not> is_shutdown rt" and lt: "f < next_future rt"
    using so tr by (simp_all add: sound_def tracked_def)
  note fl = send_message_fields [OF op, where m = m' and r = r' and s = s' and t = t']
  have res: "fst (get_agent recipient (snd (send_message m' r' s' t' rt))) = Inr agent"
    using tr get_agent_depends_on [of "snd (send_message m' r' s' t' rt)" recipient rt]
    by (simp add: fl tracked_def)
  have "t = tok" if "f \<in> set (callbacks (tokens (snd (send_message m' r' s' t' rt)) t))" for t
  proof -
    have "f \<in> set (callbacks (tokens rt t))"
      using that lt send_message_callbacks [OF op, where m = m' and r = r' and s = s' and t = t' and t' = t]
      by (auto split: if_splits)
    then show ?thesis using tr by (simp add: tracked_def)
  qed
  then have "tracked f tok recipient agent (snd (send_message m' r' s' t' rt))"
    using lt res by (simp add: tracked_def fl)
  moreover have "reply_state m s recipient f tok r (snd (send_message m' r' s' t' rt))"
    using st lt by (simp add: reply_state_def awaiting_def fl)
  ultimately show ?thesis
    using so by (simp add: reply_pending_alt sound_send_message)
qed

lemma reply_pending_publish_message:
  assumes "reply_pending m s recipient f tok agent r rt"
  shows "reply_pending m s recipient f tok agent r (snd (publish_message m' tp s' t' i u rt))"
proof -
  have tr: "tracked f tok recipient agent rt"
    and st: "reply_state m s recipient f tok r rt" and so: "sound rt"
    using assms(1) by (simp_all add: reply_pending_alt)
  have op: "\<not> is_shutdown rt"
    using so by (simp add: sound_def)
  note fl = publish_message_fields [OF op, where m = m' and tp = tp and s = s' and t = t' and i = i and u = u]
  have "tracked f tok recipient agent (snd (publish_message m' tp s' t' i u rt))"
    by (rule tracked_depends [OF _ _ _ _ tr]) (simp_all add: fl)
  moreover have "reply_state m s recipient f tok r (snd (publish_message m' tp s' t' i u rt))"
    using st by (simp add: reply_state_def awaiting_def fl)
  ultimately show ?thesis
    using so by (simp add: reply_pending_alt sound_publish_message)
qed

lemma reply_pending_run_context:
  "reply_pending m s recipient f tok agent r rt \<Longrightarrow> rc = None \<or> rc = Some (RunContext b None) \<Longrightarrow>
   reply_pending m s recipient f tok agent r (rt\<lparr>run_context := rc\<rparr>)"
  using get_agent_depends_on [of "rt\<lparr>run_context := rc\<rparr>" recipient rt]
  by (auto simp: reply_pending_def sound_run_context tracked_def awaiting_def)

lemma run_until_condition: "fst (run_until c rt) \<Longrightarrow> c (snd (run_until c rt))"
proof (induction c rt rule: run_until.induct)
  case (1 condition rt)
  note eq = run_until.simps [of condition rt]
  show ?case
  proof (cases "condition rt \<or> run_context rt \<noteq> Some (RunContext False None) \<or> message_queue rt = []")
    case True
    then show ?thesis using "1.prems" eq by (auto split: if_splits)
  next
    case False
    show ?thesis
    proof (cases "process_next rt")
      case None
      then show ?thesis using False "1.prems" eq by simp
    next
      case (Some p)
      obtain x rt' where p: "p = (x, rt')" by (cases p)
      show ?thesis
      proof (cases x)
        case (Inl e)
        then show ?thesis
          using False Some p "1.IH"(1) "1.prems" eq by simp
      next
        case (Inr u)
        then show ?thesis
          using False Some p "1.IH"(2) "1.prems" eq by simp
      qed
    qed
  qed
qed

lemma reply_pending_stop:
  assumes "reply_pending m s recipient f tok agent r rt" and "message_queue rt = []"
  shows "reply_pending m s recipient f tok agent r (snd (stop rt))"
proof -
  have tr: "tracked f tok recipient agent rt"
    and st: "reply_state m s recipient f tok r rt" and so: "sound rt"
    using assms(1) by (simp_all add: reply_pending_alt)
  have res: "futures rt f = Result r"
    using st assms(2) by (simp add: reply_state_def awaiting_def)
  have 1: "futures (snd (stop rt)) = futures rt" "next_future (snd (stop rt)) = next_future rt"
    "tokens (snd (stop rt)) = tokens rt" "instantiated_agents (snd (stop rt)) = instantiated_agents rt"
    "agent_factories (snd (stop rt)) = agent_factories rt"
    by (simp_all add: stop_def run_context_stop_def and_then_def shutdown_immediate_def
          fresh_queue_def Let_def split: option.splits)
  have "tracked f tok recipient agent (snd (stop rt))"
    by (rule tracked_depends [OF _ _ _ _ tr]) (simp_all add: 1)
  then show ?thesis
    using so res by (simp add: reply_pending_alt sound_stop reply_state_def 1)
qed

text \<open>
  What can keep the reply from the caller: cancelling the call's token, and stopping
  the runtime while envelopes are queued (\<^verbatim>\<open>stop\<close> discards them;
  \<^verbatim>\<open>stop_when\<close> stops as soon as its condition holds).
\<close>

fun interferes :: "nat \<Rightarrow> 'm action \<Rightarrow> bool" where
  "interferes tok (Cancel t) = (t = tok)"
| "interferes tok Stop = True"
| "interferes tok (StopWhen condition periods) = True"
| "interferes tok act = False"

lemma reply_pending_perform:
  assumes rp: "reply_pending m s recipient f tok agent r rt"
    and replies: "on_message agent m \<lparr>sender = s, topic_id = None, is_rpc = True,
           cancellation_token = tok, message_id = ''NOT_DEFINED_TODO_FIX''\<rparr> = Inr r"
    and ok: "\<not> interferes tok act"
  shows "reply_pending m s recipient f tok agent r (perform act rt)"
proof -
  have tr: "tracked f tok recipient agent rt"
    and st: "reply_state m s recipient f tok r rt" and so: "sound rt"
    using rp by (simp_all add: reply_pending_alt)
  note inv = reply_pending_invariant [OF replies, of recipient f]
  show ?thesis
  proof (cases act)
    case (Register ty fac)
    have "reply_state m s recipient f tok r (snd (register ty fac rt))"
      using st by (subst reply_state_fields [of _ rt]) (simp_all add: register_def)
    then show ?thesis
      using Register tracked_register(1) [OF tr] sound_perform [OF so, of act]
      by (simp add: reply_pending_alt)
  next
    case (RegisterFactory ty fac cls)
    have "reply_state m s recipient f tok r (snd (register_factory ty fac cls rt))"
      using st by (subst reply_state_fields [of _ rt]) (simp_all add: register_factory_def)
    then show ?thesis
      using RegisterFactory tracked_register(2) [OF tr] sound_perform [OF so, of act]
      by (simp add: reply_pending_alt)
  next
    case (GetAgent b)
    have "reply_state m s recipient f tok r (snd (get_agent b rt))"
      using st by (subst reply_state_fields [of _ rt]) simp_all
    moreover have "tracked f tok recipient agent (snd (get_agent b rt))"
      using tr tracked_step_stable [of f tok recipient agent] by (simp add: step_stable_def)
    ultimately show ?thesis
      using GetAgent sound_perform [OF so, of act] by (simp add: reply_pending_alt)
  next
    case (SendMessage m' r' s' t')
    then show ?thesis using rp by (simp add: reply_pending_send_message)
  next
    case (PublishMessage m' tp s' t' i u)
    then show ?thesis using rp by (simp add: reply_pending_publish_message)
  next
    case CreateToken
    have "tracked f tok recipient agent (snd (create_token rt))"
      by (rule tracked_depends [OF _ _ _ _ tr]) (simp_all add: create_token_def)
    moreover have "reply_state m s recipient f tok r (snd (create_token rt))"
      using st by (subst reply_state_fields [of _ rt]) (simp_all add: create_token_def)
    ultimately show ?thesis
      using CreateToken sound_perform [OF so, of act] by (simp add: reply_pending_alt)
  next
    case (Cancel t)
    then show ?thesis using rp ok by (simp add: reply_pending_cancel)
  next
    case ProcessNext
    show ?thesis
    proof (cases "process_next rt")
      case None
      then show ?thesis using ProcessNext rp by simp
    next
      case (Some p)
      obtain x rt' where p: "p = (x, rt')" by (cases p)
      have "x = Inr ()"
        using sound_process_next [OF so] Some p by simp
      then show ?thesis
        using invariant_step(1) [OF inv rp, of "()" rt'] Some p ProcessNext by simp
    qed
  next
    case Start
    then show ?thesis
      using rp reply_pending_run_context [OF rp, of "Some (RunContext False None)" False]
      by (simp add: start_def)
  next
    case Stop
    then show ?thesis using ok by simp
  next
    case StopWhenIdle
    define rt1 where "rt1 = snd (run_until (\<lambda>rt. unfinished_tasks rt = 0) rt)"
    have 1: "reply_pending m s recipient f tok agent r rt1"
      unfolding rt1_def by (rule invariant_run_until [OF inv rp])
    have "message_queue rt1 = []" if "fst (run_until (\<lambda>rt. unfinished_tasks rt = 0) rt)"
      using run_until_condition [OF that] 1 by (simp add: rt1_def reply_pending_def sound_def)
    then show ?thesis
      using StopWhenIdle rp 1 reply_pending_stop [of m s recipient f tok agent r rt1]
      by (auto simp: stop_when_idle_def case_prod_beta rt1_def [symmetric] split: bool.splits)
  next
    case (StopWhen c periods)
    then show ?thesis using ok by simp
  qed
qed

lemma reply_pending_lifetime:
  assumes "on_message agent m \<lparr>sender = s, topic_id = None, is_rpc = True,
           cancellation_token = tok, message_id = ''NOT_DEFINED_TODO_FIX''\<rparr> = Inr r"
  shows "reply_pending m s recipient f tok agent r rt \<Longrightarrow> \<forall>act\<in>set acts. \<not> interferes tok act \<Longrightarrow>
         reply_pending m s recipient f tok agent r (lifetime acts rt)"
  unfolding lifetime_def
  by (induction acts arbitrary: rt) (simp_all add: reply_pending_perform [OF _ assms])

lemma reply_pending_established:
  assumes so: "sound rt"
    and reg: "type recipient \<in> dom (agent_factories rt)"
    and res: "fst (get_agent recipient rt) = Inr agent"
    and tokc: "\<And>t. token = Some t \<Longrightarrow> \<not> is_cancelled (tokens rt t)"
  shows "reply_pending m s recipient (next_future rt)
           (case token of None \<Rightarrow> next_token rt | Some t \<Rightarrow> t) agent r
           (snd (send_message m recipient s token rt))"
proof -
  define rt1 where "rt1 = snd (send_message m recipient s token rt)"
  define tok where "tok = (case token of None \<Rightarrow> next_token rt | Some t \<Rightarrow> t)"
  have op: "\<not> is_shutdown rt"
    using so by (simp add: sound_def)
  note fl = send_message_fields [OF op, where m = m and r = recipient and s = s and t = token]
  have old: "filter (mentions (next_future rt)) (message_queue rt) = []"
    using so by (auto simp: sound_def filter_empty_conv)
  have "t = tok" if "next_future rt \<in> set (callbacks (tokens rt1 t))" for t
  proof (rule ccontr)
    assume "t \<noteq> tok"
    then have "next_future rt \<in> set (callbacks (tokens rt t))"
      using that send_message_callbacks [OF op, where m = m and r = recipient and s = s
          and t = token and t' = t]
      by (auto simp: rt1_def tok_def split: if_splits)
    then show False using so by (auto simp: sound_def)
  qed
  moreover have "fst (get_agent recipient rt1) = Inr agent"
    using res get_agent_depends_on [of rt1 recipient rt] by (simp add: rt1_def fl)
  ultimately have "tracked (next_future rt) tok recipient agent rt1"
    by (simp add: tracked_def rt1_def fl)
  moreover have "awaiting (next_future rt) (SendMessageEnvelope m s recipient (next_future rt) tok) rt1"
    using old send_message_pending(1) [OF op reg tokc, of token m s]
    by (simp add: awaiting_def rt1_def fl tok_def)
  ultimately show ?thesis
    using sound_send_message [OF so, of m recipient s token]
    unfolding rt1_def [symmetric] tok_def [symmetric] by (simp add: reply_pending_def)
qed

lemma queue_weight_zero: "queue_weight rt = 0 \<longleftrightarrow> message_queue rt = []"
proof (cases "message_queue rt")
  case Nil
  then show ?thesis by (simp add: queue_weight_def)
next
  case (Cons env rest)
  then show ?thesis using weight_pos [of env] by (simp add: queue_weight_def)
qed

text \<open>Dispatcher steps empty the queue.\<close>

lemma drain:
  "sound rt \<Longrightarrow> queue_weight rt \<le> n \<Longrightarrow> message_queue (lifetime (replicate n ProcessNext) rt) = []"
proof (induction n arbitrary: rt)
  case 0
  then show ?case by (simp add: lifetime_def queue_weight_zero)
next
  case (Suc n)
  show ?case
  proof (cases "process_next rt")
    case None
    then have "message_queue rt = []"
      by (auto simp: process_next_def split: list.splits if_splits)
    moreover have "perform ProcessNext rt = rt"
      using None by simp
    ultimately show ?thesis
      using Suc.IH [of rt] Suc.prems(1) by (simp add: lifetime_def queue_weight_def)
  next
    case (Some p)
    obtain x rt' where p: "p = (x, rt')" by (cases p)
    have so: "sound rt'"
      using sound_process_next [OF Suc.prems(1)] Some p by simp
    have "queue_weight rt' \<le> n"
    proof (cases "message_queue rt = []")
      case True
      then have "rt' = rt"
        using Some p by (simp add: process_next_def split: if_splits)
      then show ?thesis using True by (simp add: queue_weight_def)
    next
      case False
      then show ?thesis
        using queue_weight_process_next [of rt x rt'] Some p Suc.prems(2) by simp
    qed
    then show ?thesis
      using Suc.IH [OF so] Some p by (simp add: lifetime_def)
  qed
qed

lemma lifetime_append: "lifetime (xs @ ys) rt = lifetime ys (lifetime xs rt)"
  by (simp add: lifetime_def)

text \<open>
  The echo agent is sent \<open>hi\<close> with a token of the caller; the token is cancelled
  after the agent has answered and before the Response envelope is processed.
\<close>

definition cancelled_reply_runtime :: "string runtime" where
  "cancelled_reply_runtime =
     lifetime [RegisterFactory ''echo'' echo_factory ''EchoAgent'', Start, CreateToken,
               SendMessage ''hi'' echo_id None (Some 0), ProcessNext, Cancel 0, ProcessNext]
       (init_runtime None no_subscriptions)"





end
